theory Spec2Isabelle
  imports Main
begin

section \<open>Strings as the pipeline sees them\<close>

text \<open>
  The playlist pipeline of the Spotify extension works on JavaScript strings. They are
  modelled as \<^typ>\<open>string\<close>, so every character is one code unit in the range 0..255.
  \<open>isSpace\<close> is the class \<^verbatim>\<open>\s\<close> of the regular expressions (and the set that
  \<^verbatim>\<open>String.prototype.trim\<close> removes) restricted to that range: TAB, LF, VT, FF, CR,
  SPACE and NBSP.
\<close>

definition isSpace :: "char \<Rightarrow> bool" where
  "isSpace c =
     (c = CHR 0x09 \<or> c = CHR 0x0A \<or> c = CHR 0x0B \<or> c = CHR 0x0C \<or> c = CHR 0x0D \<or>
      c = CHR 0x20 \<or> c = CHR 0xA0)"

definition trim :: "string \<Rightarrow> string" where
  "trim s = rev (dropWhile isSpace (rev (dropWhile isSpace s)))"

text \<open>
  \<open>splitAtFirst pat s\<close> cuts \<open>s\<close> at the leftmost occurrence of \<open>pat\<close>: the text before
  it and the text after it.
\<close>

fun splitAtFirst :: "string \<Rightarrow> string \<Rightarrow> (string \<times> string) option" where
  "splitAtFirst pat [] = (if pat = [] then Some ([], []) else None)"
| "splitAtFirst pat (c # cs) =
     (if take (length pat) (c # cs) = pat then Some ([], drop (length pat) (c # cs))
      else (case splitAtFirst pat cs of
              None \<Rightarrow> None
            | Some (before, after) \<Rightarrow> Some (c # before, after)))"

definition fence :: string where
  "fence = [CHR 0x60, CHR 0x60, CHR 0x60]"

text \<open>
  \<^verbatim>\<open>data.match(/```(?:json)?\s*([\s\S]*?)```/)\<close>: the leftmost fence, an optional
  \<^verbatim>\<open>json\<close>, the longest run of white space, and then the shortest text up to the
  next fence, which is the captured group. Neither \<^verbatim>\<open>json\<close> nor white space holds a
  backquote, so the greedy choices never lose a match that backtracking would find, and a
  match starting further right needs a closing fence that the leftmost start would have
  found as well. The result is the captured group, or \<open>None\<close> when nothing matches.
\<close>

definition codeBlockMatch :: "string \<Rightarrow> string option" where
  "codeBlockMatch data =
     (case splitAtFirst fence data of
        None \<Rightarrow> None
      | Some (before, r) \<Rightarrow>
          (let r1 = (if take 4 r = ''json'' then drop 4 r else r);
               r2 = dropWhile isSpace r1
           in (case splitAtFirst fence r2 of
                 None \<Rightarrow> None
               | Some (captured, after) \<Rightarrow> Some captured)))"

text \<open>
  \<^verbatim>\<open>jsonString.match(/\{[\s\S]*\}/)\<close>: from the leftmost opening brace to the last
  closing brace after it; no match when no closing brace follows the first opening one.
\<close>

definition fromFirstBrace :: "string \<Rightarrow> string" where
  "fromFirstBrace s = dropWhile (\<lambda>c. c \<noteq> CHR ''{'') s"

definition upToLastBrace :: "string \<Rightarrow> string" where
  "upToLastBrace r = rev (dropWhile (\<lambda>c. c \<noteq> CHR ''}'') (rev r))"

definition jsonMatch :: "string \<Rightarrow> string option" where
  "jsonMatch s =
     (let m = upToLastBrace (fromFirstBrace s)
      in if m = [] then None else Some m)"

text \<open>
  \<^verbatim>\<open>jsonString.replace(/,\s*([}\]])/g, "$1")\<close>: scanning from the left, a comma
  followed by white space and a closing brace or bracket is replaced by that closing
  character, and the scan goes on behind it; any other character is kept.
\<close>

lemma dropWhile_Cons_shorter:
  "dropWhile P cs = d # r \<Longrightarrow> length r < Suc (length cs)"
  using length_dropWhile_le [of P cs] by simp

function stripTrailingCommas :: "string \<Rightarrow> string" where
  "stripTrailingCommas [] = []"
| "stripTrailingCommas (c # cs) =
     (if c = CHR '','' then
        (case dropWhile isSpace cs of
           [] \<Rightarrow> c # stripTrailingCommas cs
         | d # r \<Rightarrow>
             if d = CHR ''}'' \<or> d = CHR '']'' then d # stripTrailingCommas r
             else c # stripTrailingCommas cs)
      else c # stripTrailingCommas cs)"
  by pat_completeness auto
termination
  by (relation "measure length") (auto dest: dropWhile_Cons_shorter)

datatype parse_failure = NoJsonObjectFound | FailedToParse

datatype error =
    ParseError parse_failure
  | ValidationError
  | NoTracksResolvedError
  | TypeError

text \<open>
  \<open>cleanAIResponse\<close> (the helper of the later variants, and the first half of
  \<open>parseAiPlaylistResponse\<close> in the earlier ones, statement for statement): the fenced
  block's trimmed content if there is one, the span from the first opening to the last
  closing brace, and the trailing-comma rewrite. It throws
  \<^verbatim>\<open>"No JSON object found in AI response"\<close> when there is no such span.
\<close>

definition cleanAIResponse :: "string \<Rightarrow> error + string" where
  "cleanAIResponse data =
     (let jsonString = (case codeBlockMatch data of
                          None \<Rightarrow> data
                        | Some captured \<Rightarrow> trim captured)
      in (case jsonMatch jsonString of
            None \<Rightarrow> Inl (ParseError NoJsonObjectFound)
          | Some m \<Rightarrow> Inr (stripTrailingCommas m)))"

text \<open>
  The repair loop of \<open>parseAiPlaylistResponse\<close>: count braces from the left and cut
  behind the closing brace that brings the count back to zero; the whole string when no
  brace does so. The count is a JavaScript number, so it may go below zero.
\<close>

fun braceScan :: "int \<Rightarrow> string \<Rightarrow> string" where
  "braceScan braceCount [] = []"
| "braceScan braceCount (c # cs) =
     (if c = CHR ''{'' then c # braceScan (braceCount + 1) cs
      else if c = CHR ''}'' then
        (if braceCount - 1 = 0 then [c] else c # braceScan (braceCount - 1) cs)
      else c # braceScan braceCount cs)"

definition truncateAtBalance :: "string \<Rightarrow> string" where
  "truncateAtBalance jsonString = braceScan 0 jsonString"

section \<open>The built-in JSON.parse\<close>

text \<open>
  \<^verbatim>\<open>JSON.parse\<close> is a built-in of the language; the pipeline's behaviour depends on
  which texts it accepts. It is modelled as a machine that reads the text character by
  character, following the JSON grammar (ECMA-404): white space is TAB, LF, CR and SPACE;
  a string may not hold a raw control character, and its escapes are decoded; a number or
  a literal is the longest run of characters that are neither white space, punctuation
  nor a quote, and must be \<^verbatim>\<open>true\<close>, \<^verbatim>\<open>false\<close>, \<^verbatim>\<open>null\<close> or a JSON number.
  A parsed string is its list of UTF-16 code units; a number is kept as its lexeme (so
  equality of parsed values is finer than JavaScript's on numbers); an object is its
  members in the order of the text (a property read takes the last member of that name).
  \<open>None\<close> stands for the \<^verbatim>\<open>SyntaxError\<close>.
\<close>

datatype json =
    JNull
  | JBool bool
  | JNumber string
  | JString "nat list"
  | JArray "json list"
  | JObject "(nat list \<times> json) list"

datatype token =
    TLBrace | TRBrace | TLBrack | TRBrack | TComma | TColon
  | TString "nat list"
  | TScalar json

text \<open>
  The containers under construction, innermost first: an array with its elements so far
  (last first), an object with its members so far (last first), and above an object the
  key whose value is awaited.
\<close>

datatype frame =
    FArr "json list"
  | FObj "(nat list \<times> json) list"
  | FKey "nat list"

datatype pmode =
    PValue | PArrFirst | PObjFirst | PAfterElem | PAfterMember | PKey | PColon
  | PDone json

fun complete :: "json \<Rightarrow> frame list \<Rightarrow> (frame list \<times> pmode) option" where
  "complete v [] = Some ([], PDone v)"
| "complete v (FArr xs # st) = Some (FArr (v # xs) # st, PAfterElem)"
| "complete v (FKey k # FObj ms # st) = Some (FObj ((k, v) # ms) # st, PAfterMember)"
| "complete v st = None"

definition startValue :: "token \<Rightarrow> frame list \<Rightarrow> (frame list \<times> pmode) option" where
  "startValue t st =
     (case t of
        TString s \<Rightarrow> complete (JString s) st
      | TScalar v \<Rightarrow> complete v st
      | TLBrack \<Rightarrow> Some (FArr [] # st, PArrFirst)
      | TLBrace \<Rightarrow> Some (FObj [] # st, PObjFirst)
      | _ \<Rightarrow> None)"

definition closeArr :: "frame list \<Rightarrow> (frame list \<times> pmode) option" where
  "closeArr st = (case st of FArr xs # st' \<Rightarrow> complete (JArray (rev xs)) st' | _ \<Rightarrow> None)"

definition closeObj :: "frame list \<Rightarrow> (frame list \<times> pmode) option" where
  "closeObj st = (case st of FObj ms # st' \<Rightarrow> complete (JObject (rev ms)) st' | _ \<Rightarrow> None)"

definition emit :: "token \<Rightarrow> frame list \<times> pmode \<Rightarrow> (frame list \<times> pmode) option" where
  "emit t p =
     (case p of (st, m) \<Rightarrow>
        (case m of
           PValue \<Rightarrow> startValue t st
         | PArrFirst \<Rightarrow> (case t of TRBrack \<Rightarrow> closeArr st | _ \<Rightarrow> startValue t st)
         | PObjFirst \<Rightarrow>
             (case t of TString k \<Rightarrow> Some (FKey k # st, PColon)
                      | TRBrace \<Rightarrow> closeObj st
                      | _ \<Rightarrow> None)
         | PKey \<Rightarrow> (case t of TString k \<Rightarrow> Some (FKey k # st, PColon) | _ \<Rightarrow> None)
         | PColon \<Rightarrow> (case t of TColon \<Rightarrow> Some (st, PValue) | _ \<Rightarrow> None)
         | PAfterElem \<Rightarrow>
             (case t of TComma \<Rightarrow> Some (st, PValue) | TRBrack \<Rightarrow> closeArr st | _ \<Rightarrow> None)
         | PAfterMember \<Rightarrow>
             (case t of TComma \<Rightarrow> Some (st, PKey) | TRBrace \<Rightarrow> closeObj st | _ \<Rightarrow> None)
         | PDone v \<Rightarrow> None))"

definition jsonWs :: "char \<Rightarrow> bool" where
  "jsonWs c = (c = CHR 0x09 \<or> c = CHR 0x0A \<or> c = CHR 0x0D \<or> c = CHR 0x20)"

definition punct :: "char \<Rightarrow> token option" where
  "punct c =
     (if c = CHR ''{'' then Some TLBrace else if c = CHR ''}'' then Some TRBrace
      else if c = CHR ''['' then Some TLBrack else if c = CHR '']'' then Some TRBrack
      else if c = CHR '','' then Some TComma else if c = CHR '':'' then Some TColon
      else None)"

definition isDigit :: "char \<Rightarrow> bool" where
  "isDigit c = (48 \<le> (of_char c :: nat) \<and> (of_char c :: nat) \<le> 57)"

text \<open>
  The JSON number grammar, part by part; each function gives the text left behind its
  part, or \<open>None\<close> when the part is malformed.
\<close>

definition numInt :: "string \<Rightarrow> string option" where
  "numInt s =
     (case s of
        [] \<Rightarrow> None
      | c # r \<Rightarrow> if c = CHR ''0'' then Some r
                 else if isDigit c then Some (dropWhile isDigit r)
                 else None)"

definition numDigits :: "string \<Rightarrow> string option" where
  "numDigits s =
     (case s of
        [] \<Rightarrow> None
      | c # r \<Rightarrow> if isDigit c then Some (dropWhile isDigit r) else None)"

definition numFrac :: "string \<Rightarrow> string option" where
  "numFrac s = (case s of [] \<Rightarrow> Some [] | c # r \<Rightarrow> if c = CHR ''.'' then numDigits r else Some s)"

definition numExp :: "string \<Rightarrow> string option" where
  "numExp s =
     (case s of
        [] \<Rightarrow> Some []
      | c # r \<Rightarrow>
          if c = CHR ''e'' \<or> c = CHR ''E'' then
            (case r of
               [] \<Rightarrow> None
             | d # r' \<Rightarrow> if d = CHR ''+'' \<or> d = CHR ''-'' then numDigits r' else numDigits r)
          else Some s)"

definition isNumber :: "string \<Rightarrow> bool" where
  "isNumber s =
     (case Option.bind (Option.bind (numInt (case s of [] \<Rightarrow> [] | c # r \<Rightarrow> if c = CHR ''-'' then r else s))
                         numFrac) numExp of
        Some [] \<Rightarrow> True
      | _ \<Rightarrow> False)"

definition wordValue :: "string \<Rightarrow> json option" where
  "wordValue w =
     (if w = ''true'' then Some (JBool True)
      else if w = ''false'' then Some (JBool False)
      else if w = ''null'' then Some JNull
      else if isNumber w then Some (JNumber w)
      else None)"

definition hexDigit :: "char \<Rightarrow> nat option" where
  "hexDigit c =
     (let n = (of_char c :: nat)
      in if 48 \<le> n \<and> n \<le> 57 then Some (n - 48)
         else if 65 \<le> n \<and> n \<le> 70 then Some (n - 55)
         else if 97 \<le> n \<and> n \<le> 102 then Some (n - 87)
         else None)"

text \<open>
  Where the reader stands in the text: between tokens, in a number or literal (its
  characters so far, last first), in a string (its code units so far, last first), behind
  a backslash, or in the four hexadecimal digits of \<^verbatim>\<open>\u\<close> (the digits read so far).
\<close>

datatype lmode =
    Between
  | InWord string
  | InStr "nat list"
  | InEsc "nat list"
  | InHex "nat list" "nat list"

type_synonym pstate = "lmode \<times> frame list \<times> pmode"

definition flushWord :: "string \<Rightarrow> frame list \<times> pmode \<Rightarrow> (frame list \<times> pmode) option" where
  "flushWord w p = (case wordValue (rev w) of None \<Rightarrow> None | Some v \<Rightarrow> emit (TScalar v) p)"

definition escapeUnit :: "char \<Rightarrow> nat option" where
  "escapeUnit c =
     (if c = CHR 0x22 then Some 34 else if c = CHR 0x5C then Some 92
      else if c = CHR ''/'' then Some 47 else if c = CHR ''b'' then Some 8
      else if c = CHR ''f'' then Some 12 else if c = CHR ''n'' then Some 10
      else if c = CHR ''r'' then Some 13 else if c = CHR ''t'' then Some 9
      else None)"

definition step :: "pstate \<Rightarrow> char \<Rightarrow> pstate option" where
  "step s c =
     (case s of (l, p) \<Rightarrow>
        (case l of
           Between \<Rightarrow>
             if jsonWs c then Some (Between, p)
             else if c = CHR 0x22 then Some (InStr [], p)
             else (case punct c of
                     Some t \<Rightarrow> map_option (Pair Between) (emit t p)
                   | None \<Rightarrow> Some (InWord [c], p))
         | InWord w \<Rightarrow>
             if jsonWs c then map_option (Pair Between) (flushWord w p)
             else if c = CHR 0x22 then map_option (Pair (InStr [])) (flushWord w p)
             else (case punct c of
                     Some t \<Rightarrow> map_option (Pair Between) (Option.bind (flushWord w p) (emit t))
                   | None \<Rightarrow> Some (InWord (c # w), p))
         | InStr acc \<Rightarrow>
             if c = CHR 0x22 then map_option (Pair Between) (emit (TString (rev acc)) p)
             else if c = CHR 0x5C then Some (InEsc acc, p)
             else if (of_char c :: nat) < 32 then None
             else Some (InStr (of_char c # acc), p)
         | InEsc acc \<Rightarrow>
             if c = CHR ''u'' then Some (InHex acc [], p)
             else (case escapeUnit c of
                     None \<Rightarrow> None
                   | Some u \<Rightarrow> Some (InStr (u # acc), p))
         | InHex acc hs \<Rightarrow>
             (case hexDigit c of
                None \<Rightarrow> None
              | Some h \<Rightarrow>
                  if length hs = 3 then Some (InStr (foldl (\<lambda>n d. 16 * n + d) 0 (hs @ [h]) # acc), p)
                  else Some (InHex acc (hs @ [h]), p))))"

definition finish :: "pstate \<Rightarrow> json option" where
  "finish s =
     (case s of (l, p) \<Rightarrow>
        (case l of
           Between \<Rightarrow> (case p of ([], PDone v) \<Rightarrow> Some v | _ \<Rightarrow> None)
         | InWord w \<Rightarrow> (case flushWord w p of Some ([], PDone v) \<Rightarrow> Some v | _ \<Rightarrow> None)
         | _ \<Rightarrow> None))"

definition feed :: "char \<Rightarrow> pstate option \<Rightarrow> pstate option" where
  "feed c so = Option.bind so (\<lambda>s. step s c)"

definition run :: "string \<Rightarrow> pstate option \<Rightarrow> pstate option" where
  "run input so = fold feed input so"

definition JSON_parse :: "string \<Rightarrow> json option" where
  "JSON_parse input = Option.bind (run input (Some (Between, [], PValue))) finish"

text \<open>A JSON string value from a text of the model.\<close>

definition jstr :: "string \<Rightarrow> json" where
  "jstr s = JString (map of_char s)"

section \<open>Parsing and validating the AI response\<close>

text \<open>
  \<^verbatim>\<open>playlist.tracks\<close>: reading a property of \<^verbatim>\<open>null\<close> throws a
  \<^verbatim>\<open>TypeError\<close>; an object gives the last member of that name; any other parsed
  value has no such property (\<^verbatim>\<open>undefined\<close>, here \<open>None\<close>).
\<close>

definition getProp :: "json \<Rightarrow> string \<Rightarrow> error + json option" where
  "getProp v k =
     (case v of
        JNull \<Rightarrow> Inl TypeError
      | JObject ms \<Rightarrow> Inr (map_of (rev ms) (map of_char k))
      | _ \<Rightarrow> Inr None)"

text \<open>
  \<^verbatim>\<open>!v\<close> for a property value. A number is falsy when it is zero; whether a lexeme
  denotes zero is decided on its digits (a lexeme so small that it rounds to zero is taken
  as non-zero, which changes nothing below: a number is not an array either way).
\<close>

definition falsy :: "json option \<Rightarrow> bool" where
  "falsy v =
     (case v of
        None \<Rightarrow> True
      | Some JNull \<Rightarrow> True
      | Some (JBool b) \<Rightarrow> \<not> b
      | Some (JNumber n) \<Rightarrow>
          list_all (\<lambda>c. \<not> isDigit c \<or> c = CHR ''0'')
            (takeWhile (\<lambda>c. c \<noteq> CHR ''e'' \<and> c \<noteq> CHR ''E'') n)
      | Some (JString s) \<Rightarrow> s = []
      | Some (JArray xs) \<Rightarrow> False
      | Some (JObject ms) \<Rightarrow> False)"

definition isArray :: "json option \<Rightarrow> bool" where
  "isArray v = (case v of Some (JArray xs) \<Rightarrow> True | _ \<Rightarrow> False)"

definition arrayLength :: "json option \<Rightarrow> nat" where
  "arrayLength v = (case v of Some (JArray xs) \<Rightarrow> length xs | _ \<Rightarrow> 0)"

text \<open>
  The check at the end of \<open>parseAiPlaylistResponse\<close> (part_000, lines 153-158):
  \<^verbatim>\<open>if (!playlist.tracks || !Array.isArray(playlist.tracks) || playlist.tracks.length === 0)\<close>
  throws \<^verbatim>\<open>"AI response contains no songs. ..."\<close>.
\<close>

definition validatePlaylist :: "json \<Rightarrow> error + json" where
  "validatePlaylist playlist =
     (case getProp playlist ''tracks'' of
        Inl e \<Rightarrow> Inl e
      | Inr t \<Rightarrow>
          if falsy t \<or> \<not> isArray t \<or> arrayLength t = 0 then Inl ValidationError
          else Inr playlist)"

text \<open>
  \<open>parseAiPlaylistResponse\<close> (part_000, lines 92-159): clean the text, parse it, on a
  \<^verbatim>\<open>SyntaxError\<close> cut it behind the balancing brace and parse once more, then
  validate. The second failure throws \<^verbatim>\<open>"Failed to parse AI response: ..."\<close>.
\<close>

definition parseAiPlaylistResponse :: "string \<Rightarrow> error + json" where
  "parseAiPlaylistResponse data =
     (case cleanAIResponse data of
        Inl e \<Rightarrow> Inl e
      | Inr jsonString \<Rightarrow>
          (case JSON_parse jsonString of
             Some playlist \<Rightarrow> validatePlaylist playlist
           | None \<Rightarrow>
               (case JSON_parse (truncateAtBalance jsonString) of
                  Some playlist \<Rightarrow> validatePlaylist playlist
                | None \<Rightarrow> Inl (ParseError FailedToParse))))"

section \<open>Tracks and playlist versions\<close>

text \<open>
  A track object of the search API. Only what the pipeline reads is kept: \<open>ref\<close> is the
  identity of the JavaScript object (two objects are the same object exactly when their
  \<open>ref\<close> is equal; every response of the search API holds fresh objects), \<open>track_id\<close>
  is its Spotify id and \<open>track_name\<close> its title. An unresolved position is \<open>None\<close>
  (\<^verbatim>\<open>null\<close> in the source).
\<close>

record Track =
  ref :: nat
  track_id :: string
  track_name :: string

record PlaylistVersion =
  name :: string
  description :: string
  tracks :: "Track option list"
  prompt :: string

section \<open>Resolving the suggestions on Spotify\<close>

record AiTrack =
  title :: string
  artist :: string

text \<open>
  What one awaited call \<^verbatim>\<open>searchTracks(query, 1)\<close> of the search API gives: it throws,
  or it returns a response. \<^verbatim>\<open>response?.items?.[0]\<close> is the first item when the
  response has items; \<open>NoItems\<close> is a response that is \<^verbatim>\<open>undefined\<close> or has no
  \<^verbatim>\<open>items\<close>. The API itself is a parameter of the model, a function of the query.
\<close>

datatype response = Throws | NoItems | Items "Track list"

definition firstItem :: "response \<Rightarrow> Track option" where
  "firstItem r = (case r of Items (t # ts) \<Rightarrow> Some t | _ \<Rightarrow> None)"

definition strictQuery :: "AiTrack \<Rightarrow> string" where
  "strictQuery song = ''track:'' @ title song @ '' artist:'' @ artist song"

definition lenientQuery :: "AiTrack \<Rightarrow> string" where
  "lenientQuery song = title song @ '' '' @ artist song"

text \<open>
  The callback that \<open>resolveTracksOnSpotify\<close> maps over the suggestions (part_000,
  lines 60-80): the strict query, then the lenient one, inside one \<^verbatim>\<open>try\<close> whose
  \<^verbatim>\<open>catch\<close> logs the error and falls through to \<^verbatim>\<open>return null\<close>. The result comes
  with the queries that were sent, in order.
\<close>

definition resolveSong :: "(string \<Rightarrow> response) \<Rightarrow> AiTrack \<Rightarrow> Track option \<times> string list" where
  "resolveSong searchTracks song =
     (case searchTracks (strictQuery song) of
        Throws \<Rightarrow> (None, [strictQuery song])
      | r \<Rightarrow>
          (case firstItem r of
             Some track \<Rightarrow> (Some track, [strictQuery song])
           | None \<Rightarrow>
               (case searchTracks (lenientQuery song) of
                  Throws \<Rightarrow> (None, [strictQuery song, lenientQuery song])
                | r' \<Rightarrow> (firstItem r', [strictQuery song, lenientQuery song]))))"

text \<open>
  \<open>resolveTracksOnSpotify\<close> (part_000, lines 56-90): \<^verbatim>\<open>Promise.all\<close> gives the
  results in the order of the suggestions; when no entry is a track it throws
  \<^verbatim>\<open>"None of the suggested songs could be found on Spotify. ..."\<close>.
\<close>

definition resolveTracksOnSpotify ::
  "(string \<Rightarrow> response) \<Rightarrow> AiTrack list \<Rightarrow> error + Track option list" where
  "resolveTracksOnSpotify searchTracks aiTracks =
     (let tracks = map (\<lambda>song. fst (resolveSong searchTracks song)) aiTracks;
          validTracks = filter (\<lambda>t. t \<noteq> None) tracks
      in if length validTracks = 0 then Inl NoTracksResolvedError else Inr tracks)"

section \<open>Removing duplicate tracks\<close>

text \<open>
  \<^verbatim>\<open>arr.findIndex(pred)\<close>: the first index whose element satisfies the predicate, -1
  when there is none.
\<close>

fun findIndexFrom :: "int \<Rightarrow> ('a \<Rightarrow> bool) \<Rightarrow> 'a list \<Rightarrow> int" where
  "findIndexFrom i pred [] = - 1"
| "findIndexFrom i pred (x # xs) = (if pred x then i else findIndexFrom (i + 1) pred xs)"

definition findIndex :: "('a \<Rightarrow> bool) \<Rightarrow> 'a list \<Rightarrow> int" where
  "findIndex pred xs = findIndexFrom 0 pred xs"

text \<open>\<^verbatim>\<open>arr.filter((x, index, arr) => keep(x, index, arr))\<close>.\<close>

fun filterIndexedFrom :: "int \<Rightarrow> ('a \<Rightarrow> int \<Rightarrow> bool) \<Rightarrow> 'a list \<Rightarrow> 'a list" where
  "filterIndexedFrom i keep [] = []"
| "filterIndexedFrom i keep (x # xs) =
     (if keep x i then x # filterIndexedFrom (i + 1) keep xs
      else filterIndexedFrom (i + 1) keep xs)"

definition filterIndexed :: "('a \<Rightarrow> int \<Rightarrow> bool) \<Rightarrow> 'a list \<Rightarrow> 'a list" where
  "filterIndexed keep xs = filterIndexedFrom 0 keep xs"

text \<open>
  part_000, lines 468-472, under the comment ``The AI might return duplicate songs, so we
  need to filter them out by track ID'':
  \<^verbatim>\<open>tracks.filter((track, index, arr) => track && arr.findIndex((t) => t?.id === track.id) === index)\<close>.
  An entry that is \<^verbatim>\<open>null\<close> is dropped; \<^verbatim>\<open>t?.id\<close> of a \<^verbatim>\<open>null\<close> entry is
  \<^verbatim>\<open>undefined\<close>, which is no track's id.
\<close>

definition sameId :: "Track \<Rightarrow> Track option \<Rightarrow> bool" where
  "sameId track t = (case t of None \<Rightarrow> False | Some t' \<Rightarrow> track_id t' = track_id track)"

definition dedupById :: "Track option list \<Rightarrow> Track option list" where
  "dedupById arr =
     filterIndexed
       (\<lambda>entry index. case entry of
                         None \<Rightarrow> False
                       | Some track \<Rightarrow> findIndex (sameId track) arr = index)
       arr"

text \<open>
  \<^verbatim>\<open>generatePlaylist.tsx\<close>, lines 522-523, under the comment ``The AI might return
  duplicate songs, so we need to filter them out'':
  \<^verbatim>\<open>const tracks = [...new Set(currentPlaylist?.tracks)]\<close>. A \<^verbatim>\<open>Set\<close> keeps the
  first of the entries that are the same value: for objects the same object, and
  \<^verbatim>\<open>null\<close> is the same as \<^verbatim>\<open>null\<close>.
\<close>

definition sameValueZero :: "Track option \<Rightarrow> Track option \<Rightarrow> bool" where
  "sameValueZero a b =
     (case a of
        None \<Rightarrow> (case b of None \<Rightarrow> True | Some y \<Rightarrow> False)
      | Some x \<Rightarrow> (case b of None \<Rightarrow> False | Some y \<Rightarrow> ref x = ref y))"

fun setInsertAll :: "Track option list \<Rightarrow> Track option list \<Rightarrow> Track option list" where
  "setInsertAll seen [] = seen"
| "setInsertAll seen (x # xs) =
     (if list_ex (sameValueZero x) seen then setInsertAll seen xs
      else setInsertAll (seen @ [x]) xs)"

definition dedupBySet :: "Track option list \<Rightarrow> Track option list" where
  "dedupBySet arr = setInsertAll [] arr"

section \<open>Version history with an index cursor\<close>

text \<open>
  The state of \<open>Command\<close> in \<^verbatim>\<open>generatePlaylist.tsx\<close> (lines 173-177):
  \<^verbatim>\<open>const [history, setHistory] = useState<PlaylistVersion[]>([])\<close>,
  \<^verbatim>\<open>const [currentIndex, setCurrentIndex] = useState(0)\<close> and
  \<^verbatim>\<open>const [error, setError] = useState<ErrorState | null>(null)\<close>. The state
  variables \<open>isLoading\<close> and \<open>searchText\<close> and the \<open>message\<close> of an error are written
  by the functions below and read by none of them; they are left out.
\<close>

record ErrorState =
  failedPrompt :: string
  isInitialGeneration :: bool

record CommandState =
  history :: "PlaylistVersion list"
  currentIndex :: int
  error :: "ErrorState option"

definition initialState :: CommandState where
  "initialState = \<lparr>history = [], currentIndex = 0, error = None\<rparr>"

text \<open>\<^verbatim>\<open>xs[i]\<close>: \<^verbatim>\<open>undefined\<close> outside the array.\<close>

definition at :: "'a list \<Rightarrow> int \<Rightarrow> 'a option" where
  "at xs i = (if 0 \<le> i \<and> i < int (length xs) then Some (xs ! nat i) else None)"

text \<open>\<^verbatim>\<open>xs.slice(0, e)\<close>: a negative end counts from the end of the array.\<close>

definition slice0 :: "'a list \<Rightarrow> int \<Rightarrow> 'a list" where
  "slice0 xs e =
     (let n = int (length xs);
          k = (if e < 0 then max (n + e) 0 else min e n)
      in take (nat k) xs)"

text \<open>
  \<open>Command\<close> is a React function component. Every render reads one state, and the
  functions it declares see the \<open>history\<close>, \<open>currentIndex\<close> and \<open>error\<close> of that
  render, whenever they run. A setter called with a value stores the value; called with a
  function, it applies the function to the state of the moment the update is made. So
  each function below has two states: \<open>r\<close>, the state of the render that declared it,
  and \<open>s\<close>, the state that its updates are made on; the result is the state after them.
  For a function that is called from the view on the screen and makes its updates at
  once, \<open>s\<close> is \<open>r\<close>. \<open>tunePlaylist\<close> and \<open>retryWithPrompt\<close> make theirs after
  awaiting the AI and the searches, and the view stays in use meanwhile.
\<close>

definition currentPlaylist :: "CommandState \<Rightarrow> PlaylistVersion option" where
  "currentPlaylist r = at (history r) (currentIndex r)"

definition canRevert :: "CommandState \<Rightarrow> bool" where
  "canRevert r = (currentIndex r > 0)"

definition canRedo :: "CommandState \<Rightarrow> bool" where
  "canRedo r = (currentIndex r < int (length (history r)) - 1)"

text \<open>
  \<^verbatim>\<open>setIsLoading(true); setError(null)\<close>: what \<open>generateInitialPlaylist\<close>,
  \<open>retryWithPrompt\<close> and the \<^verbatim>\<open>try\<close> block of \<open>tunePlaylist\<close> do before their
  first \<^verbatim>\<open>await\<close>.
\<close>

definition requestStarted :: "CommandState \<Rightarrow> CommandState" where
  "requestStarted s = s\<lparr>error := None\<rparr>"

text \<open>
  \<open>generateInitialPlaylist\<close> (lines 188-240) and \<open>retryWithPrompt\<close> (lines 315-374)
  after their awaits. \<open>outcome\<close> is what the awaited calls (the AI request,
  \<open>parseAiPlaylistResponse\<close> and \<open>resolveTracksOnSpotify\<close>) gave: the new version, or
  the exception that the \<^verbatim>\<open>catch\<close> turns into an error state. On success:
  \<^verbatim>\<open>setHistory([version]); setCurrentIndex(0); setError(null)\<close>.
\<close>

definition retryWithPrompt :: "string \<Rightarrow> error + PlaylistVersion \<Rightarrow> CommandState \<Rightarrow> CommandState" where
  "retryWithPrompt userPrompt outcome s =
     (case outcome of
        Inl err \<Rightarrow> s\<lparr>error := Some \<lparr>failedPrompt = userPrompt, isInitialGeneration = True\<rparr>\<rparr>
      | Inr version \<Rightarrow> s\<lparr>history := [version], currentIndex := 0, error := None\<rparr>)"

definition generateInitialPlaylist ::
  "string \<Rightarrow> error + PlaylistVersion \<Rightarrow> CommandState \<Rightarrow> CommandState" where
  "generateInitialPlaylist userPrompt outcome s =
     (case outcome of
        Inl err \<Rightarrow> s\<lparr>error := Some \<lparr>failedPrompt = userPrompt, isInitialGeneration = True\<rparr>\<rparr>
      | Inr version \<Rightarrow> s\<lparr>history := [version], currentIndex := 0, error := None\<rparr>)"

text \<open>
  \<open>tunePlaylist\<close> (lines 242-311; part_000, lines 264-320, is the same without the
  retry, its error state having no \<open>isInitialGeneration\<close>). It returns at once on a blank
  prompt; when the error of its render is that of a failed first generation it is
  \<open>retryWithPrompt\<close>; it returns when its render has no current playlist. Otherwise it
  starts the request, awaits the outcome, and on success runs
  \<^verbatim>\<open>setHistory((prev) => [...prev.slice(0, currentIndex + 1), newVersion])\<close>,
  \<^verbatim>\<open>setCurrentIndex((prev) => prev + 1)\<close> and \<^verbatim>\<open>setError(null)\<close>: \<open>prev\<close> is the
  history, or the cursor, of \<open>s\<close>, and \<open>currentIndex\<close> is that of \<open>r\<close>.
  \<open>tunePlaylist_called\<close> is the part before the first await, \<open>tunePlaylist\<close> the part
  after the last.
\<close>

definition initialGenerationFailed :: "CommandState \<Rightarrow> bool" where
  "initialGenerationFailed r = (case error r of None \<Rightarrow> False | Some e \<Rightarrow> isInitialGeneration e)"

definition tunePlaylist_called :: "CommandState \<Rightarrow> string \<Rightarrow> CommandState \<Rightarrow> CommandState" where
  "tunePlaylist_called r userPrompt s =
     (if trim userPrompt = [] then s
      else if initialGenerationFailed r then requestStarted s
      else (case currentPlaylist r of
              None \<Rightarrow> s
            | Some cur \<Rightarrow> requestStarted s))"

definition tunePlaylist ::
  "CommandState \<Rightarrow> string \<Rightarrow> error + PlaylistVersion \<Rightarrow> CommandState \<Rightarrow> CommandState" where
  "tunePlaylist r userPrompt outcome s =
     (if trim userPrompt = [] then s
      else if initialGenerationFailed r then retryWithPrompt userPrompt outcome s
      else (case currentPlaylist r of
              None \<Rightarrow> s
            | Some cur \<Rightarrow>
                (case outcome of
                   Inl err \<Rightarrow> s\<lparr>error := Some \<lparr>failedPrompt = userPrompt, isInitialGeneration = False\<rparr>\<rparr>
                 | Inr newVersion \<Rightarrow>
                     \<lparr>history = slice0 (history s) (currentIndex r + 1) @ [newVersion],
                      currentIndex = currentIndex s + 1,
                      error = None\<rparr>)))"

text \<open>
  \<open>revertToPrevious\<close>, \<open>redoNext\<close> and \<open>jumpToVersion\<close> (lines 376-398; part_000,
  lines 321-343): the guard reads the render,
  \<^verbatim>\<open>setCurrentIndex((prev) => prev - 1)\<close> and \<^verbatim>\<open>setCurrentIndex((prev) => prev + 1)\<close>
  the state of the moment, and all three end with \<^verbatim>\<open>setError(null)\<close>.
\<close>

definition revertToPrevious :: "CommandState \<Rightarrow> CommandState \<Rightarrow> CommandState" where
  "revertToPrevious r s =
     (if canRevert r then s\<lparr>currentIndex := currentIndex s - 1, error := None\<rparr> else s)"

definition redoNext :: "CommandState \<Rightarrow> CommandState \<Rightarrow> CommandState" where
  "redoNext r s =
     (if canRedo r then s\<lparr>currentIndex := currentIndex s + 1, error := None\<rparr> else s)"

definition jumpToVersion :: "CommandState \<Rightarrow> int \<Rightarrow> CommandState \<Rightarrow> CommandState" where
  "jumpToVersion r index s =
     (if index \<ge> 0 \<and> index < int (length (history r))
      then s\<lparr>currentIndex := index, error := None\<rparr>
      else s)"

text \<open>The invariant of the data model: the cursor names a version of the history.\<close>

definition cursorInRange :: "CommandState \<Rightarrow> bool" where
  "cursorInRange s = (0 \<le> currentIndex s \<and> currentIndex s < int (length (history s)))"

section \<open>Version history with a reference to the current playlist\<close>

text \<open>
  The later \<open>Command\<close> (part_009) keeps the history as an array of playlist objects and
  the current playlist as one of these objects:
  \<^verbatim>\<open>const [history, setHistory] = useState<Playlist[]>([])\<close>,
  \<^verbatim>\<open>const [currentPlaylist, setCurrentPlaylist] = useState<Playlist | null>(null)\<close>,
  and computes \<open>currentIndex\<close> as \<^verbatim>\<open>history.indexOf(currentPlaylist)\<close>, or -1 when
  there is no current playlist. \<^verbatim>\<open>indexOf\<close> compares objects by identity, and no step
  reads or changes the content of a playlist, so a playlist object is modelled by its
  identity alone. As above, \<open>r\<close> is the state of the render that declared a function and
  \<open>s\<close> the state that its updates are made on.
\<close>

type_synonym playlistRef = nat

record RefState =
  historyRefs :: "playlistRef list"
  currentRef :: "playlistRef option"

definition indexOf :: "'a list \<Rightarrow> 'a \<Rightarrow> int" where
  "indexOf xs x = findIndex (\<lambda>y. y = x) xs"

definition currentIndexOf :: "RefState \<Rightarrow> int" where
  "currentIndexOf st = (case currentRef st of None \<Rightarrow> - 1 | Some p \<Rightarrow> indexOf (historyRefs st) p)"

text \<open>
  \<open>jumpToVersion\<close> of part_009 (lines 238-244 and 654-660):
  \<^verbatim>\<open>if (index >= 0 && index < history.length) setCurrentPlaylist(history[index])\<close>.
\<close>

definition jumpToVersionRef :: "RefState \<Rightarrow> int \<Rightarrow> RefState \<Rightarrow> RefState" where
  "jumpToVersionRef r index s =
     (if index \<ge> 0 \<and> index < int (length (historyRefs r))
      then s\<lparr>currentRef := Some (historyRefs r ! nat index)\<rparr>
      else s)"

text \<open>
  \<open>TuneHistoryList\<close> of part_008: its properties (lines 6-11) and \<open>handleDelete\<close>
  (lines 23-36). The setters and \<open>onSelect\<close> belong to the component that renders the
  list; they are updates of its state. A property that the caller leaves out is
  \<^verbatim>\<open>undefined\<close> (\<open>None\<close>), and calling it throws a \<^verbatim>\<open>TypeError\<close>. \<open>handleDelete\<close>
  runs \<^verbatim>\<open>setLocalHistory(newHistory)\<close>, then \<^verbatim>\<open>setHistory(newHistory)\<close>, then
  \<open>onSelect\<close> at the index it has worked out. The result holds the exception, if one
  was thrown, the state of the caller and the list's own \<open>localHistory\<close>.
\<close>

record TuneHistoryListProps =
  historyProp :: "playlistRef list"
  setHistory :: "(playlistRef list \<Rightarrow> RefState \<Rightarrow> RefState) option"
  currentPlaylistProp :: "playlistRef option"
  onSelect :: "int \<Rightarrow> RefState \<Rightarrow> RefState"

record DeleteResult =
  thrown :: "error option"
  caller :: RefState
  localHistory :: "playlistRef list"

definition handleDelete ::
  "TuneHistoryListProps \<Rightarrow> playlistRef list \<Rightarrow> int \<Rightarrow> RefState \<Rightarrow> DeleteResult" where
  "handleDelete props localHistory0 index s =
     (let currentIndex = (case currentPlaylistProp props of
                            None \<Rightarrow> - 1
                          | Some p \<Rightarrow> indexOf (historyProp props) p);
          newHistory = filterIndexed (\<lambda>p i. i \<noteq> index) localHistory0
      in case setHistory props of
           None \<Rightarrow> \<lparr>thrown = Some TypeError, caller = s, localHistory = newHistory\<rparr>
         | Some setter \<Rightarrow>
             (let selected =
                    (if currentIndex > index then currentIndex - 1
                     else if currentIndex = index \<and> length newHistory > 0
                          then max 0 (currentIndex - 1)
                     else currentIndex)
              in \<lparr>thrown = None,
                  caller = onSelect props selected (setter newHistory s),
                  localHistory = newHistory\<rparr>))"

text \<open>
  The one place under the sources that renders a list with this import, part_009 line
  932: \<^verbatim>\<open><TuneHistoryList history={history} currentPlaylist={currentPlaylist} onSelect={jumpToVersion} />\<close>.
  No \<open>setHistory\<close> is passed.
\<close>

definition renderTuneHistoryList :: "RefState \<Rightarrow> TuneHistoryListProps" where
  "renderTuneHistoryList r =
     \<lparr>historyProp = historyRefs r,
      setHistory = None,
      currentPlaylistProp = currentRef r,
      onSelect = jumpToVersionRef r\<rparr>"

section \<open>The other variants in the repository\<close>

text \<open>
  The repository holds several versions of the command. The definitions above follow
  part_000 for the pipeline, which has every step of it there, and
  \<^verbatim>\<open>generatePlaylist.tsx\<close> for the history with an index cursor. Where another
  version does something else in a function of the same name, it is given here under a
  name of its own, with what it does on the inputs that tell the versions apart.
\<close>

text \<open>
  The callback of \<open>resolveTracksOnSpotify\<close> in \<^verbatim>\<open>generatePlaylist.tsx\<close> (lines
  57-68) and in part_009 (lines 29-42, where the fields are called \<^verbatim>\<open>name\<close> and
  \<^verbatim>\<open>artists\<close>): the strict query only.
\<close>

definition resolveSongStrictOnly :: "(string \<Rightarrow> response) \<Rightarrow> AiTrack \<Rightarrow> Track option" where
  "resolveSongStrictOnly searchTracks song =
     (case searchTracks (strictQuery song) of
        Throws \<Rightarrow> None
      | r \<Rightarrow> firstItem r)"

text \<open>
  \<open>resolveTracksOnSpotify\<close> of \<^verbatim>\<open>generatePlaylist.tsx\<close> (lines 53-70) returns the
  array of \<^verbatim>\<open>Promise.all\<close> as it is.
\<close>

definition resolveTracksOnSpotify_unchecked ::
  "(string \<Rightarrow> response) \<Rightarrow> AiTrack list \<Rightarrow> Track option list" where
  "resolveTracksOnSpotify_unchecked searchTracks aiTracks =
     map (resolveSongStrictOnly searchTracks) aiTracks"

text \<open>
  \<open>resolveTracksOnSpotify\<close> of part_009 (lines 27-52) throws when no entry is a track
  and returns \<open>validTracks\<close>, the entries that are tracks.
\<close>

definition resolveTracksOnSpotify_valid ::
  "(string \<Rightarrow> response) \<Rightarrow> AiTrack list \<Rightarrow> error + Track list" where
  "resolveTracksOnSpotify_valid searchTracks aiTracks =
     (let tracks = map (resolveSongStrictOnly searchTracks) aiTracks;
          validTracks = filter (\<lambda>t. t \<noteq> None) tracks
      in if length validTracks = 0 then Inl NoTracksResolvedError
         else Inr (map the validTracks))"

text \<open>
  \<open>parseAiPlaylistResponse\<close> of \<^verbatim>\<open>generatePlaylist.tsx\<close> (lines 72-130) returns
  what \<^verbatim>\<open>JSON.parse\<close> gave, without a look at \<^verbatim>\<open>tracks\<close>.
\<close>

definition parseAiPlaylistResponse_unvalidated :: "string \<Rightarrow> error + json" where
  "parseAiPlaylistResponse_unvalidated data =
     (case cleanAIResponse data of
        Inl e \<Rightarrow> Inl e
      | Inr jsonString \<Rightarrow>
          (case JSON_parse jsonString of
             Some playlist \<Rightarrow> Inr playlist
           | None \<Rightarrow>
               (case JSON_parse (truncateAtBalance jsonString) of
                  Some playlist \<Rightarrow> Inr playlist
                | None \<Rightarrow> Inl (ParseError FailedToParse))))"

text \<open>
  \<open>tunePlaylist\<close> of part_009 (lines 196-221), as far as the history goes: it returns
  at once on a blank prompt, without a current playlist and when the prompt is the current
  playlist's own; on success it runs
  \<^verbatim>\<open>setHistory((prevHistory) => [...prevHistory, playlist])\<close> and
  \<^verbatim>\<open>setCurrentPlaylist(playlist)\<close>. \<open>samePrompt\<close> says whether the prompt is that
  of the current playlist; \<open>outcome\<close> is the new playlist object or the exception.
  The guards read the render \<open>r\<close>; the updates are made on \<open>s\<close>.
\<close>

definition tunePlaylistRef ::
  "RefState \<Rightarrow> string \<Rightarrow> bool \<Rightarrow> error + playlistRef \<Rightarrow> RefState \<Rightarrow> RefState" where
  "tunePlaylistRef r userPrompt samePrompt outcome s =
     (if trim userPrompt = [] then s
      else (case currentRef r of
              None \<Rightarrow> s
            | Some cur \<Rightarrow>
                if samePrompt then s
                else (case outcome of
                        Inl err \<Rightarrow> s
                      | Inr playlist \<Rightarrow>
                          \<lparr>historyRefs = historyRefs s @ [playlist], currentRef = Some playlist\<rparr>)))"

section \<open>Notions for the statements and the proofs\<close>

text \<open>
  \<open>closesAtEnd n s\<close>: the brace count of the repair loop, started at \<open>n\<close>, comes back
  to zero at the last character of \<open>s\<close> and not before.
\<close>

fun closesAtEnd :: "int \<Rightarrow> string \<Rightarrow> bool" where
  "closesAtEnd n [] = False"
| "closesAtEnd n (c # cs) =
     (if c = CHR ''{'' then closesAtEnd (n + 1) cs
      else if c = CHR ''}'' then (if n - 1 = 0 then cs = [] else closesAtEnd (n - 1) cs)
      else closesAtEnd n cs)"

text \<open>
  String literals as the quotes delimit them: a quote opens a literal, the next quote
  that no backslash escapes closes it. \<open>insideStringLiteral s\<close> says that a literal is
  open at the end of \<open>s\<close>.
\<close>

datatype qstate = Outside | Inside | Escaped

fun qstep :: "qstate \<Rightarrow> char \<Rightarrow> qstate" where
  "qstep Outside c = (if c = CHR 0x22 then Inside else Outside)"
| "qstep Inside c = (if c = CHR 0x22 then Outside else if c = CHR 0x5C then Escaped else Inside)"
| "qstep Escaped c = Inside"

definition insideStringLiteral :: "string \<Rightarrow> bool" where
  "insideStringLiteral s = (foldl qstep Outside s \<noteq> Outside)"

text \<open>
  For the proofs: the quote state that a mode of the JSON reader stands for; the
  characters that are neither a quote nor a backslash, which leave a literal as it is;
  the brace count behind a prefix (\<open>None\<close> when the loop has stopped inside it); and the
  invariant of a parse that started with an opening brace (the outermost container is an
  object).
\<close>

fun qmode :: "lmode \<Rightarrow> qstate" where
  "qmode Between = Outside"
| "qmode (InWord w) = Outside"
| "qmode (InStr acc) = Inside"
| "qmode (InEsc acc) = Escaped"
| "qmode (InHex acc hs) = Inside"

definition plain :: "char \<Rightarrow> bool" where
  "plain c = (c \<noteq> CHR 0x22 \<and> c \<noteq> CHR 0x5C)"

fun settle :: "qstate \<Rightarrow> qstate" where
  "settle Escaped = Inside"
| "settle q = q"

fun depthAfter :: "int \<Rightarrow> string \<Rightarrow> int option" where
  "depthAfter n [] = Some n"
| "depthAfter n (c # cs) =
     (if c = CHR ''{'' then depthAfter (n + 1) cs
      else if c = CHR ''}'' then (if n - 1 = 0 then None else depthAfter (n - 1) cs)
      else depthAfter n cs)"

definition objInv :: "frame list \<times> pmode \<Rightarrow> bool" where
  "objInv p =
     (case p of (st, m) \<Rightarrow>
        (st \<noteq> [] \<and> (\<exists>ms. last st = FObj ms)) \<or> (st = [] \<and> (\<exists>ms. m = PDone (JObject ms))))"

text \<open>
  \<open>noBraceInStringLiteral s\<close>: every brace of \<open>s\<close> stands outside the string
  literals, as the quotes delimit them.
\<close>

fun bracesOutside :: "qstate \<Rightarrow> string \<Rightarrow> bool" where
  "bracesOutside q [] = True"
| "bracesOutside q (c # cs) =
     ((q = Outside \<or> (c \<noteq> CHR ''{'' \<and> c \<noteq> CHR ''}'')) \<and> bracesOutside (qstep q c) cs)"

definition noBraceInStringLiteral :: "string \<Rightarrow> bool" where
  "noBraceInStringLiteral s = bracesOutside Outside s"

text \<open>
  For the proofs: the number of objects under construction, and what a character or a
  token adds to it.
\<close>

fun objDepth :: "frame list \<Rightarrow> int" where
  "objDepth [] = 0"
| "objDepth (FObj ms # st) = 1 + objDepth st"
| "objDepth (FArr xs # st) = objDepth st"
| "objDepth (FKey k # st) = objDepth st"

definition braceDelta :: "char \<Rightarrow> int" where
  "braceDelta c = (if c = CHR ''{'' then 1 else if c = CHR ''}'' then - 1 else 0)"

definition tokenDelta :: "token \<Rightarrow> int" where
  "tokenDelta t = (case t of TLBrace \<Rightarrow> 1 | TRBrace \<Rightarrow> - 1 | _ \<Rightarrow> 0)"

text \<open>The tracks of a list of entries, in order, without the nulls.\<close>

definition tracksOf :: "Track option list \<Rightarrow> Track list" where
  "tracksOf arr = map the (filter (\<lambda>t. t \<noteq> None) arr)"

text \<open>The entries that the filter keeps, read from left to right with the entries before.\<close>

fun firstById :: "Track option list \<Rightarrow> Track option list \<Rightarrow> Track option list" where
  "firstById pre [] = []"
| "firstById pre (None # post) = firstById (pre @ [None]) post"
| "firstById pre (Some t # post) =
     (if list_ex (sameId t) pre then firstById (pre @ [Some t]) post
      else Some t # firstById (pre @ [Some t]) post)"

text \<open>What the filter by id keeps, said on the tracks alone.\<close>

fun firstOfEachId :: "string list \<Rightarrow> Track list \<Rightarrow> Track list" where
  "firstOfEachId seen [] = []"
| "firstOfEachId seen (t # ts) =
     (if track_id t \<in> set seen then firstOfEachId seen ts
      else t # firstOfEachId (track_id t # seen) ts)"

section \<open>Properties of the version history\<close>

lemma currentPlaylist_Some:
  "cursorInRange r \<Longrightarrow> currentPlaylist r = Some (history r ! nat (currentIndex r))"
  by (simp add: cursorInRange_def currentPlaylist_def at_def)

lemma slice0_in_range:
  "0 \<le> c \<Longrightarrow> c < int (length xs) \<Longrightarrow> slice0 xs (c + 1) = take (Suc (nat c)) xs"
  by (simp add: slice0_def Let_def nat_add_distrib)

text \<open>
  When the cursor of the state that \<open>tunePlaylist\<close> updates is the cursor of the render
  that it was called from, a successful tune keeps the versions up to the cursor, drops
  the later ones, pushes the new version and moves the cursor to it, the new last index.
\<close>

lemma tunePlaylist_cursor_kept:
  assumes "trim userPrompt \<noteq> []" and "\<not> initialGenerationFailed r"
    and "cursorInRange r" and "cursorInRange s" and "currentIndex s = currentIndex r"
  shows "tunePlaylist r userPrompt (Inr D) s =
           \<lparr>history = take (Suc (nat (currentIndex s))) (history s) @ [D],
            currentIndex = int (length (take (Suc (nat (currentIndex s))) (history s) @ [D])) - 1,
            error = None\<rparr>"
proof -
  have c: "0 \<le> currentIndex s" "currentIndex s < int (length (history s))"
    using assms(4) by (simp_all add: cursorInRange_def)
  have m: "min (length (history s)) (Suc (nat (currentIndex s))) = Suc (nat (currentIndex s))"
    using c by linarith
  have "tunePlaylist r userPrompt (Inr D) s =
          \<lparr>history = slice0 (history s) (currentIndex s + 1) @ [D],
           currentIndex = currentIndex s + 1, error = None\<rparr>"
    using assms(1,2,5) currentPlaylist_Some [OF assms(3)] by (simp add: tunePlaylist_def)
  then show ?thesis
    using c m by (simp add: slice0_in_range)
qed

lemma tunePlaylist_after_revert_example:
  assumes "trim userPrompt \<noteq> []"
  shows "tunePlaylist \<lparr>history = [A, B, C], currentIndex = 1, error = None\<rparr> userPrompt (Inr D)
           \<lparr>history = [A, B, C], currentIndex = 1, error = None\<rparr> =
         \<lparr>history = [A, B, D], currentIndex = 2, error = None\<rparr>"
  using assms
  by (simp add: tunePlaylist_def initialGenerationFailed_def currentPlaylist_def at_def slice0_def)

text \<open>
  C1. The update of the history and the update of the cursor in \<open>tunePlaylist\<close> read
  two different states. History [A, B, C] with the cursor at 2; the user reverts (cursor
  1), asks for a tune and, while the AI is awaited, takes ``Redo'' (cursor 2). When the
  tune arrives, \<^verbatim>\<open>prev.slice(0, currentIndex + 1)\<close> cuts at the cursor of the render
  that asked, 1, and \<^verbatim>\<open>(prev) => prev + 1\<close> adds to the cursor of the moment, 2: the
  history is [A, B, D] and the cursor 3, not the new last index 2. Without the redo the
  same call gives [A, B, D] with the cursor at 2.
\<close>

theorem tunePlaylist_redo_while_pending:
  "(let A = \<lparr>name = ''A'', description = ''first'',
              tracks = [Some \<lparr>ref = 1, track_id = ''id1'', track_name = ''One''\<rparr>], prompt = ''a''\<rparr>;
        B = \<lparr>name = ''B'', description = ''second'',
              tracks = [Some \<lparr>ref = 2, track_id = ''id2'', track_name = ''Two''\<rparr>], prompt = ''b''\<rparr>;
        C = \<lparr>name = ''C'', description = ''third'',
              tracks = [Some \<lparr>ref = 3, track_id = ''id3'', track_name = ''Three''\<rparr>], prompt = ''c''\<rparr>;
        D = \<lparr>name = ''D'', description = ''fourth'',
              tracks = [Some \<lparr>ref = 4, track_id = ''id4'', track_name = ''Four''\<rparr>], prompt = ''more jazz''\<rparr>;
        s0 = \<lparr>history = [A, B, C], currentIndex = 2, error = None\<rparr>;
        s1 = revertToPrevious s0 s0;
        s2 = tunePlaylist_called s1 ''more jazz'' s1;
        s3 = redoNext s2 s2;
        s4 = tunePlaylist s1 ''more jazz'' (Inr D) s3
    in s1 = \<lparr>history = [A, B, C], currentIndex = 1, error = None\<rparr>
       \<and> s2 = \<lparr>history = [A, B, C], currentIndex = 1, error = None\<rparr>
       \<and> s3 = \<lparr>history = [A, B, C], currentIndex = 2, error = None\<rparr>
       \<and> s4 = \<lparr>history = [A, B, D], currentIndex = 3, error = None\<rparr>
       \<and> tunePlaylist s1 ''more jazz'' (Inr D) s2 =
             \<lparr>history = [A, B, D], currentIndex = 2, error = None\<rparr>)"
  by (simp add: Let_def revertToPrevious_def canRevert_def tunePlaylist_called_def
        initialGenerationFailed_def currentPlaylist_def at_def requestStarted_def redoNext_def
        canRedo_def tunePlaylist_def slice0_def trim_def isSpace_def)

text \<open>
  Each function keeps the cursor in range when the render that declared it shows the
  state that it updates: the same cursor, and for the guards on the length a history of
  the same length.
\<close>

lemma retryWithPrompt_cursorInRange:
  "cursorInRange (retryWithPrompt userPrompt (Inr version) s)"
  "cursorInRange s \<Longrightarrow> cursorInRange (retryWithPrompt userPrompt outcome s)"
  by (cases outcome; simp add: retryWithPrompt_def cursorInRange_def)+

lemma generateInitialPlaylist_cursorInRange:
  "cursorInRange (generateInitialPlaylist userPrompt (Inr version) s)"
  "cursorInRange s \<Longrightarrow> cursorInRange (generateInitialPlaylist userPrompt outcome s)"
  by (cases outcome; simp add: generateInitialPlaylist_def cursorInRange_def)+

lemma tunePlaylist_called_cursorInRange:
  "cursorInRange s \<Longrightarrow> cursorInRange (tunePlaylist_called r userPrompt s)"
  by (simp add: tunePlaylist_called_def requestStarted_def cursorInRange_def split: option.split)

lemma tunePlaylist_cursorInRange:
  assumes "cursorInRange s" and "currentIndex s = currentIndex r"
  shows "cursorInRange (tunePlaylist r userPrompt outcome s)"
proof -
  have c: "0 \<le> currentIndex s" "currentIndex s < int (length (history s))"
    using assms(1) by (simp_all add: cursorInRange_def)
  have m: "min (length (history s)) (Suc (nat (currentIndex s))) = Suc (nat (currentIndex s))"
    using c by linarith
  have n: "cursorInRange \<lparr>history = slice0 (history s) (currentIndex r + 1) @ [v],
                           currentIndex = currentIndex s + 1, error = None\<rparr>" for v
    using c m assms(2) [symmetric] by (simp add: cursorInRange_def slice0_in_range)
  have e: "cursorInRange (s\<lparr>error := x\<rparr>)" for x
    using assms(1) by (simp add: cursorInRange_def)
  show ?thesis
    using assms(1) n e retryWithPrompt_cursorInRange(2) [OF assms(1)]
    by (simp add: tunePlaylist_def split: option.split sum.split)
qed

lemma revertToPrevious_cursorInRange:
  "cursorInRange s \<Longrightarrow> currentIndex s = currentIndex r \<Longrightarrow> cursorInRange (revertToPrevious r s)"
  by (simp add: cursorInRange_def revertToPrevious_def canRevert_def)

lemma redoNext_cursorInRange:
  "cursorInRange s \<Longrightarrow> currentIndex s = currentIndex r \<Longrightarrow> length (history s) = length (history r)
   \<Longrightarrow> cursorInRange (redoNext r s)"
  by (simp add: cursorInRange_def redoNext_def canRedo_def)

lemma jumpToVersion_cursorInRange:
  "cursorInRange s \<Longrightarrow> length (history r) \<le> length (history s)
   \<Longrightarrow> cursorInRange (jumpToVersion r index s)"
  by (simp add: cursorInRange_def jumpToVersion_def)

text \<open>
  Deleting a version: the list that \<open>Command\<close> renders has no \<open>setHistory\<close>, so
  \<open>handleDelete\<close> throws at \<^verbatim>\<open>setHistory(newHistory)\<close>, before any \<open>onSelect\<close>: the
  state of \<open>Command\<close> is as before, and with it its \<open>currentIndex\<close>. Only the list's
  own \<open>localHistory\<close> has lost the version.
\<close>

lemma handleDelete_throws:
  "handleDelete (renderTuneHistoryList r) localHistory0 index s =
     \<lparr>thrown = Some TypeError, caller = s,
      localHistory = filterIndexed (\<lambda>p i. i \<noteq> index) localHistory0\<rparr>"
  by (simp add: handleDelete_def renderTuneHistoryList_def Let_def)

lemma handleDelete_example:
  "handleDelete (renderTuneHistoryList \<lparr>historyRefs = [10, 11], currentRef = Some 11\<rparr>) [10, 11] 0
     \<lparr>historyRefs = [10, 11], currentRef = Some 11\<rparr> =
   \<lparr>thrown = Some TypeError, caller = \<lparr>historyRefs = [10, 11], currentRef = Some 11\<rparr>,
    localHistory = [11]\<rparr>"
  by (simp add: handleDelete_throws filterIndexed_def)

text \<open>
  C6. A tune that arrives after the cursor has moved puts the cursor out of range.
  History [A, B, C] with the cursor at 2; the user jumps to version 1 (cursor 0), asks
  for a tune and, while the AI is awaited, jumps to version 3 (cursor 2). When the tune
  arrives the history is cut behind index 0, the cursor of the render that asked, and
  the cursor of the moment is incremented: history [A, D], cursor 3. Every state before
  has the cursor in range; the last has not, and there is no current playlist.
\<close>

theorem tunePlaylist_leaves_cursor_out_of_range:
  "(let A = \<lparr>name = ''A'', description = ''first'',
              tracks = [Some \<lparr>ref = 1, track_id = ''id1'', track_name = ''One''\<rparr>], prompt = ''a''\<rparr>;
        B = \<lparr>name = ''B'', description = ''second'',
              tracks = [Some \<lparr>ref = 2, track_id = ''id2'', track_name = ''Two''\<rparr>], prompt = ''b''\<rparr>;
        C = \<lparr>name = ''C'', description = ''third'',
              tracks = [Some \<lparr>ref = 3, track_id = ''id3'', track_name = ''Three''\<rparr>], prompt = ''c''\<rparr>;
        D = \<lparr>name = ''D'', description = ''fourth'',
              tracks = [Some \<lparr>ref = 4, track_id = ''id4'', track_name = ''Four''\<rparr>], prompt = ''less pop''\<rparr>;
        s0 = \<lparr>history = [A, B, C], currentIndex = 2, error = None\<rparr>;
        s1 = jumpToVersion s0 0 s0;
        s2 = tunePlaylist_called s1 ''less pop'' s1;
        s3 = jumpToVersion s2 2 s2;
        s4 = tunePlaylist s1 ''less pop'' (Inr D) s3
    in cursorInRange s0 \<and> cursorInRange s1 \<and> cursorInRange s2 \<and> cursorInRange s3
       \<and> s1 = \<lparr>history = [A, B, C], currentIndex = 0, error = None\<rparr>
       \<and> s3 = \<lparr>history = [A, B, C], currentIndex = 2, error = None\<rparr>
       \<and> s4 = \<lparr>history = [A, D], currentIndex = 3, error = None\<rparr>
       \<and> \<not> cursorInRange s4
       \<and> currentPlaylist s4 = None)"
  by (simp add: Let_def jumpToVersion_def tunePlaylist_called_def cursorInRange_def
        initialGenerationFailed_def currentPlaylist_def at_def requestStarted_def
        tunePlaylist_def slice0_def trim_def isSpace_def)

section \<open>Properties of the resolver\<close>

lemma resolveSong_throws:
  "searchTracks (strictQuery song) = Throws \<Longrightarrow> resolveSong searchTracks song = (None, [strictQuery song])"
  by (simp add: resolveSong_def)

lemma resolveSong_hit:
  "searchTracks (strictQuery song) \<noteq> Throws \<Longrightarrow> firstItem (searchTracks (strictQuery song)) = Some t
   \<Longrightarrow> resolveSong searchTracks song = (Some t, [strictQuery song])"
  by (cases "searchTracks (strictQuery song)") (simp_all add: resolveSong_def)

lemma resolveSong_retry:
  "searchTracks (strictQuery song) \<noteq> Throws \<Longrightarrow> firstItem (searchTracks (strictQuery song)) = None
   \<Longrightarrow> resolveSong searchTracks song =
        (if searchTracks (lenientQuery song) = Throws then None
         else firstItem (searchTracks (lenientQuery song)),
         [strictQuery song, lenientQuery song])"
  by (cases "searchTracks (strictQuery song)"; cases "searchTracks (lenientQuery song)")
     (simp_all add: resolveSong_def)

lemma resolveSong_null_iff:
  "fst (resolveSong searchTracks song) = None \<longleftrightarrow>
        searchTracks (strictQuery song) = Throws
        \<or> (firstItem (searchTracks (strictQuery song)) = None
            \<and> (searchTracks (lenientQuery song) = Throws
                \<or> firstItem (searchTracks (lenientQuery song)) = None))"
proof (cases "searchTracks (strictQuery song) = Throws")
  case True
  then show ?thesis by (simp add: resolveSong_throws)
next
  case nt: False
  show ?thesis
  proof (cases "firstItem (searchTracks (strictQuery song))")
    case None
    with nt show ?thesis by (simp add: resolveSong_retry)
  next
    case (Some t)
    with nt show ?thesis by (simp add: resolveSong_hit)
  qed
qed

lemma resolveSong_first_query:
  "hd (snd (resolveSong searchTracks song)) = strictQuery song"
proof (cases "searchTracks (strictQuery song) = Throws")
  case True
  then show ?thesis by (simp add: resolveSong_throws)
next
  case nt: False
  show ?thesis
  proof (cases "firstItem (searchTracks (strictQuery song))")
    case None
    with nt show ?thesis by (simp add: resolveSong_retry)
  next
    case (Some t)
    with nt show ?thesis by (simp add: resolveSong_hit)
  qed
qed

text \<open>
  C7. For every suggestion the first query sent is \<^verbatim>\<open>track:<title> artist:<artist>\<close>.
  If it has a hit, its first item is the result and nothing else is sent; if it throws,
  the result is null and nothing else is sent; only if it returns without a hit is
  \<^verbatim>\<open><title> <artist>\<close> sent, whose first item is then the result. The result is null
  exactly when a call throws or both queries have no hit.
\<close>

theorem resolveSong_strict_then_lenient:
  "hd (snd (resolveSong searchTracks song)) = ''track:'' @ title song @ '' artist:'' @ artist song
   \<and> (\<forall>t. searchTracks (strictQuery song) \<noteq> Throws \<and> firstItem (searchTracks (strictQuery song)) = Some t
          \<longrightarrow> resolveSong searchTracks song = (Some t, [strictQuery song]))
   \<and> (searchTracks (strictQuery song) = Throws
          \<longrightarrow> resolveSong searchTracks song = (None, [strictQuery song]))
   \<and> (searchTracks (strictQuery song) \<noteq> Throws \<and> firstItem (searchTracks (strictQuery song)) = None
          \<longrightarrow> snd (resolveSong searchTracks song) = [strictQuery song, title song @ '' '' @ artist song]
            \<and> fst (resolveSong searchTracks song) =
                (if searchTracks (lenientQuery song) = Throws then None
                 else firstItem (searchTracks (lenientQuery song))))
   \<and> (fst (resolveSong searchTracks song) = None \<longleftrightarrow>
        searchTracks (strictQuery song) = Throws
        \<or> (firstItem (searchTracks (strictQuery song)) = None
            \<and> (searchTracks (lenientQuery song) = Throws
                \<or> firstItem (searchTracks (lenientQuery song)) = None)))"
proof (intro conjI allI impI)
  show "hd (snd (resolveSong searchTracks song)) = ''track:'' @ title song @ '' artist:'' @ artist song"
    using resolveSong_first_query [of searchTracks song] by (simp add: strictQuery_def)
next
  fix t
  assume "searchTracks (strictQuery song) \<noteq> Throws \<and> firstItem (searchTracks (strictQuery song)) = Some t"
  then show "resolveSong searchTracks song = (Some t, [strictQuery song])"
    by (simp add: resolveSong_hit)
next
  assume "searchTracks (strictQuery song) = Throws"
  then show "resolveSong searchTracks song = (None, [strictQuery song])"
    by (rule resolveSong_throws)
next
  assume a: "searchTracks (strictQuery song) \<noteq> Throws \<and> firstItem (searchTracks (strictQuery song)) = None"
  then have r: "resolveSong searchTracks song =
        (if searchTracks (lenientQuery song) = Throws then None
         else firstItem (searchTracks (lenientQuery song)),
         [strictQuery song, lenientQuery song])"
    by (simp add: resolveSong_retry)
  show "snd (resolveSong searchTracks song) = [strictQuery song, title song @ '' '' @ artist song]"
    unfolding r by (simp add: lenientQuery_def)
  show "fst (resolveSong searchTracks song) =
          (if searchTracks (lenientQuery song) = Throws then None
           else firstItem (searchTracks (lenientQuery song)))"
    unfolding r by simp
next
  show "fst (resolveSong searchTracks song) = None \<longleftrightarrow>
        searchTracks (strictQuery song) = Throws
        \<or> (firstItem (searchTracks (strictQuery song)) = None
            \<and> (searchTracks (lenientQuery song) = Throws
                \<or> firstItem (searchTracks (lenientQuery song)) = None))"
    by (rule resolveSong_null_iff)
qed

theorem resolveSong_strict_then_lenient_witness:
  "resolveSong (\<lambda>q. if q = ''Blue in Green Miles Davis''
                      then Items [\<lparr>ref = 1, track_id = ''id1'', track_name = ''Blue in Green''\<rparr>]
                      else Items [])
     \<lparr>title = ''Blue in Green'', artist = ''Miles Davis''\<rparr> =
   (Some \<lparr>ref = 1, track_id = ''id1'', track_name = ''Blue in Green''\<rparr>,
    [''track:Blue in Green artist:Miles Davis'', ''Blue in Green Miles Davis''])"
proof -
  let ?s = "\<lambda>q. if q = ''Blue in Green Miles Davis''
                      then Items [\<lparr>ref = 1, track_id = ''id1'', track_name = ''Blue in Green''\<rparr>]
                      else Items []"
  let ?song = "\<lparr>title = ''Blue in Green'', artist = ''Miles Davis''\<rparr>"
  have h: "?s (strictQuery ?song) \<noteq> Throws \<and> firstItem (?s (strictQuery ?song)) = None"
    by (simp add: strictQuery_def firstItem_def)
  have l: "lenientQuery ?song = ''Blue in Green Miles Davis''"
    by (simp add: lenientQuery_def)
  have q: "strictQuery ?song = ''track:Blue in Green artist:Miles Davis''"
    by (simp add: strictQuery_def)
  from resolveSong_strict_then_lenient [of ?s ?song] h
  have "snd (resolveSong ?s ?song) = [strictQuery ?song, title ?song @ '' '' @ artist ?song]"
    and "fst (resolveSong ?s ?song) =
                (if ?s (lenientQuery ?song) = Throws then None
                 else firstItem (?s (lenientQuery ?song)))"
    by blast+
  then have "snd (resolveSong ?s ?song) = [''track:Blue in Green artist:Miles Davis'', ''Blue in Green Miles Davis'']"
    and "fst (resolveSong ?s ?song) = Some \<lparr>ref = 1, track_id = ''id1'', track_name = ''Blue in Green''\<rparr>"
    unfolding l q by (simp_all add: firstItem_def)
  then show ?thesis
    by (simp add: prod_eq_iff)
qed

lemma resolved_tracks_cases:
  "resolveTracksOnSpotify searchTracks aiTracks =
     (if filter (\<lambda>t. t \<noteq> None) (map (\<lambda>song. fst (resolveSong searchTracks song)) aiTracks) = []
      then Inl NoTracksResolvedError
      else Inr (map (\<lambda>song. fst (resolveSong searchTracks song)) aiTracks))"
  by (simp only: resolveTracksOnSpotify_def Let_def length_0_conv)

text \<open>
  C2. If every suggestion resolves to null (by C7: each of its calls threw or found
  nothing), \<open>resolveTracksOnSpotify\<close> fails with \<open>NoTracksResolvedError\<close>; it does not
  return the list of nulls.
\<close>

theorem resolveTracksOnSpotify_all_null_fails:
  assumes "\<forall>song \<in> set aiTracks. fst (resolveSong searchTracks song) = None"
  shows "resolveTracksOnSpotify searchTracks aiTracks = Inl NoTracksResolvedError"
proof -
  have "filter (\<lambda>t. t \<noteq> None) (map (\<lambda>song. fst (resolveSong searchTracks song)) aiTracks) = []"
    unfolding filter_empty_conv using assms by simp
  then show ?thesis
    unfolding resolved_tracks_cases by simp
qed

theorem resolveTracksOnSpotify_all_null_fails_witness:
  "resolveTracksOnSpotify (\<lambda>q. if q = ''track:A artist:B'' then Throws else Items [])
     [\<lparr>title = ''A'', artist = ''B''\<rparr>, \<lparr>title = ''C'', artist = ''D''\<rparr>] = Inl NoTracksResolvedError"
proof -
  have "\<forall>song \<in> set [\<lparr>title = ''A'', artist = ''B''\<rparr>, \<lparr>title = ''C'', artist = ''D''\<rparr>].
          fst (resolveSong (\<lambda>q. if q = ''track:A artist:B'' then Throws else Items []) song) = None"
    by (simp add: resolveSong_def strictQuery_def lenientQuery_def firstItem_def)
  then show ?thesis
    by (rule resolveTracksOnSpotify_all_null_fails)
qed

text \<open>
  C3. When \<open>resolveTracksOnSpotify\<close> succeeds, its list is as long as the list of
  suggestions, and the entry at each index is the resolution of the suggestion at that
  index.
\<close>

theorem resolveTracksOnSpotify_same_length_and_order:
  assumes "resolveTracksOnSpotify searchTracks aiTracks = Inr ts"
  shows "length ts = length aiTracks
         \<and> (\<forall>i < length aiTracks. ts ! i = fst (resolveSong searchTracks (aiTracks ! i)))"
proof -
  let ?ts = "map (\<lambda>song. fst (resolveSong searchTracks song)) aiTracks"
  have "filter (\<lambda>t. t \<noteq> None) ?ts \<noteq> []"
  proof
    assume "filter (\<lambda>t. t \<noteq> None) ?ts = []"
    then have "resolveTracksOnSpotify searchTracks aiTracks = Inl NoTracksResolvedError"
      unfolding resolved_tracks_cases by simp
    with assms show False by simp
  qed
  then have "resolveTracksOnSpotify searchTracks aiTracks = Inr ?ts"
    unfolding resolved_tracks_cases by simp
  with assms have "ts = ?ts" by simp
  then show ?thesis by simp
qed

theorem resolveTracksOnSpotify_same_length_and_order_witness:
  "resolveTracksOnSpotify
     (\<lambda>q. if q = ''track:A artist:B'' then Items [\<lparr>ref = 7, track_id = ''id7'', track_name = ''A''\<rparr>] else Items [])
     [\<lparr>title = ''C'', artist = ''D''\<rparr>, \<lparr>title = ''A'', artist = ''B''\<rparr>] =
       Inr [None, Some \<lparr>ref = 7, track_id = ''id7'', track_name = ''A''\<rparr>]
   \<and> length [None, Some \<lparr>ref = 7, track_id = ''id7'', track_name = ''A''\<rparr>] =
       length [\<lparr>title = ''C'', artist = ''D''\<rparr>, \<lparr>title = ''A'', artist = ''B''\<rparr>]"
proof -
  have r: "resolveTracksOnSpotify
     (\<lambda>q. if q = ''track:A artist:B'' then Items [\<lparr>ref = 7, track_id = ''id7'', track_name = ''A''\<rparr>] else Items [])
     [\<lparr>title = ''C'', artist = ''D''\<rparr>, \<lparr>title = ''A'', artist = ''B''\<rparr>] =
       Inr [None, Some \<lparr>ref = 7, track_id = ''id7'', track_name = ''A''\<rparr>]"
    by (simp add: resolveTracksOnSpotify_def resolveSong_def strictQuery_def lenientQuery_def firstItem_def)
  show ?thesis
    using r resolveTracksOnSpotify_same_length_and_order [OF r] by simp
qed

section \<open>Properties of the deduplication\<close>

subsection \<open>The \<^verbatim>\<open>Set\<close>\<close>

lemma tracksOf_simps:
  "tracksOf [] = []"
  "tracksOf (None # xs) = tracksOf xs"
  "tracksOf (Some t # xs) = t # tracksOf xs"
  "tracksOf (xs @ ys) = tracksOf xs @ tracksOf ys"
  by (simp_all add: tracksOf_def)

lemma list_ex_sameValueZero_Some:
  "list_ex (sameValueZero (Some t)) seen \<longleftrightarrow> ref t \<in> ref ` set (tracksOf seen)"
proof (induction seen)
  case Nil
  then show ?case by (simp add: tracksOf_simps)
next
  case (Cons x xs)
  then show ?case
    by (cases x) (auto simp: tracksOf_simps sameValueZero_def)
qed

lemma setInsertAll_keeps_fresh_objects:
  "distinct (map ref (tracksOf (seen @ arr))) \<Longrightarrow>
   tracksOf (setInsertAll seen arr) = tracksOf (seen @ arr)"
proof (induction arr arbitrary: seen)
  case Nil
  then show ?case by simp
next
  case (Cons x xs)
  show ?case
  proof (cases x)
    case None
    have d: "distinct (map ref (tracksOf (seen @ xs)))" "distinct (map ref (tracksOf ((seen @ [None]) @ xs)))"
      using Cons.prems None by (simp_all add: tracksOf_simps)
    show ?thesis
      using Cons.IH [OF d(1)] Cons.IH [OF d(2)] None by (simp add: tracksOf_simps)
  next
    case (Some t)
    from Cons.prems Some have "ref t \<notin> ref ` set (tracksOf seen)"
      by (auto simp: tracksOf_simps)
    then have new: "\<not> list_ex (sameValueZero (Some t)) seen"
      by (simp add: list_ex_sameValueZero_Some)
    have "distinct (map ref (tracksOf ((seen @ [Some t]) @ xs)))"
      using Cons.prems Some by (simp add: tracksOf_simps)
    from Cons.IH [OF this] new Some show ?thesis
      by (simp add: tracksOf_simps)
  qed
qed

lemma dedupBySet_keeps_fresh_objects:
  "distinct (map ref (tracksOf arr)) \<Longrightarrow> tracksOf (dedupBySet arr) = tracksOf arr"
  using setInsertAll_keeps_fresh_objects [of "[]" arr] by (simp add: dedupBySet_def)

subsection \<open>The filter by id\<close>

lemma findIndexFrom_append_first:
  "\<not> list_ex P pre \<Longrightarrow> P x \<Longrightarrow> findIndexFrom k P (pre @ x # post) = k + int (length pre)"
  by (induction pre arbitrary: k) simp_all

lemma findIndexFrom_bounds:
  "list_ex P xs \<Longrightarrow> k \<le> findIndexFrom k P xs \<and> findIndexFrom k P xs < k + int (length xs)"
proof (induction xs arbitrary: k)
  case Nil
  then show ?case by simp
next
  case (Cons x xs)
  show ?case
  proof (cases "P x")
    case True
    then show ?thesis by simp
  next
    case False
    with Cons.prems have "list_ex P xs" by simp
    from Cons.IH [OF this, of "k + 1"] False show ?thesis by simp
  qed
qed

lemma findIndexFrom_append_earlier:
  "list_ex P pre \<Longrightarrow> findIndexFrom k P (pre @ post) < k + int (length pre)"
proof (induction pre arbitrary: k)
  case Nil
  then show ?case by simp
next
  case (Cons x xs)
  show ?case
  proof (cases "P x")
    case True
    then show ?thesis by simp
  next
    case False
    with Cons.prems have "list_ex P xs" by simp
    from Cons.IH [OF this, of "k + 1"] False show ?thesis by simp
  qed
qed

lemma sameId_self: "sameId t (Some t)"
  by (simp add: sameId_def)

lemma findIndex_here_iff:
  "findIndex (sameId t) (pre @ Some t # post) = int (length pre) \<longleftrightarrow> \<not> list_ex (sameId t) pre"
proof (cases "list_ex (sameId t) pre")
  case True
  from findIndexFrom_append_earlier [OF True, of 0 "Some t # post"] True
  show ?thesis by (simp add: findIndex_def)
next
  case False
  from findIndexFrom_append_first [OF False sameId_self, of 0 post] False
  show ?thesis by (simp add: findIndex_def)
qed

lemma filterIndexedFrom_firstById:
  "whole = pre @ post \<Longrightarrow>
   filterIndexedFrom (int (length pre))
     (\<lambda>entry index. case entry of None \<Rightarrow> False
                      | Some track \<Rightarrow> findIndex (sameId track) whole = index)
     post = firstById pre post"
proof (induction post arbitrary: pre)
  case Nil
  then show ?case by simp
next
  case (Cons x xs)
  have w: "whole = (pre @ [x]) @ xs"
    using Cons.prems by simp
  have l: "int (length pre) + 1 = int (length (pre @ [x]))"
    by simp
  show ?case
  proof (cases x)
    case None
    show ?thesis
      unfolding None filterIndexedFrom.simps firstById.simps option.case if_False l [unfolded None]
      using Cons.IH [OF w] None by simp
  next
    case (Some t)
    have h: "findIndex (sameId t) whole = int (length pre) \<longleftrightarrow> \<not> list_ex (sameId t) pre"
      using findIndex_here_iff [of t pre xs] Cons.prems Some by simp
    show ?thesis
      unfolding Some filterIndexedFrom.simps firstById.simps option.case h l [unfolded Some]
      using Cons.IH [OF w] Some by simp
  qed
qed

lemma dedupById_firstById: "dedupById arr = firstById [] arr"
  using filterIndexedFrom_firstById [of arr "[]" arr]
  by (simp add: dedupById_def filterIndexed_def)

lemma list_ex_sameId:
  "list_ex (sameId t) pre \<longleftrightarrow> track_id t \<in> track_id ` set (tracksOf pre)"
proof (induction pre)
  case Nil
  then show ?case by (simp add: tracksOf_simps)
next
  case (Cons x xs)
  then show ?case
    by (cases x) (auto simp: tracksOf_simps sameId_def)
qed

lemma firstOfEachId_cong:
  "set seen = set seen' \<Longrightarrow> firstOfEachId seen ts = firstOfEachId seen' ts"
proof (induction ts arbitrary: seen seen')
  case Nil
  show ?case by simp
next
  case (Cons t ts)
  have m: "track_id t \<in> set seen \<longleftrightarrow> track_id t \<in> set seen'"
    unfolding Cons.prems ..
  have s: "set (track_id t # seen) = set (track_id t # seen')"
    unfolding list.set Cons.prems ..
  show ?case
    unfolding firstOfEachId.simps m Cons.IH [OF Cons.prems] Cons.IH [OF s] ..
qed

lemma firstById_tracks:
  "firstById pre post = map Some (firstOfEachId (map track_id (tracksOf pre)) (tracksOf post))"
proof (induction pre post rule: firstById.induct)
  case (1 pre)
  then show ?case by (simp add: tracksOf_simps)
next
  case (2 pre post)
  then show ?case by (simp add: tracksOf_simps)
next
  case (3 pre t post)
  have c: "firstOfEachId (map track_id (tracksOf (pre @ [Some t]))) (tracksOf post)
         = firstOfEachId (track_id t # map track_id (tracksOf pre)) (tracksOf post)"
    by (rule firstOfEachId_cong) (auto simp: tracksOf_simps)
  have m: "track_id t \<in> set (map track_id (tracksOf pre))
           \<Longrightarrow> firstOfEachId (track_id t # map track_id (tracksOf pre)) (tracksOf post)
             = firstOfEachId (map track_id (tracksOf pre)) (tracksOf post)"
    by (rule firstOfEachId_cong) auto
  show ?case
  proof (cases "list_ex (sameId t) pre")
    case True
    then have "track_id t \<in> set (map track_id (tracksOf pre))"
      by (simp add: list_ex_sameId)
    with 3(1) [OF True] True c m show ?thesis
      by (simp add: tracksOf_simps)
  next
    case False
    then have "track_id t \<notin> set (map track_id (tracksOf pre))"
      by (simp add: list_ex_sameId)
    with 3(2) [OF False] False c show ?thesis
      by (simp add: tracksOf_simps)
  qed
qed

lemma dedupById_first_of_each_id:
  "dedupById arr = map Some (firstOfEachId [] (tracksOf arr))"
  by (simp add: dedupById_firstById firstById_tracks tracksOf_simps)

lemma firstOfEachId_ids:
  "set (map track_id (firstOfEachId seen ts)) = set (map track_id ts) - set seen
   \<and> distinct (map track_id (firstOfEachId seen ts))"
  by (induction seen ts rule: firstOfEachId.induct) auto

lemma dedupById_distinct_ids:
  "distinct (map track_id (tracksOf (dedupById arr)))"
  using firstOfEachId_ids [of "[]" "tracksOf arr"]
  by (simp add: dedupById_first_of_each_id tracksOf_def comp_def)

lemma dedupById_same_ids:
  "set (map track_id (tracksOf (dedupById arr))) = set (map track_id (tracksOf arr))"
  using firstOfEachId_ids [of "[]" "tracksOf arr"]
  by (simp add: dedupById_first_of_each_id tracksOf_def comp_def)

subsection \<open>The two on one list\<close>

text \<open>
  C9. Two objects fetched for the same track (the same id, another object) are both kept
  by the \<^verbatim>\<open>Set\<close> of \<^verbatim>\<open>generatePlaylist.tsx\<close>, which only merges the nulls; the
  filter by id of part_000 keeps the first of them.
\<close>

theorem dedupBySet_keeps_refetched_track:
  "dedupBySet [Some \<lparr>ref = 1, track_id = ''4uLU6hMCjMI75M1A2tKUQC'', track_name = ''Song''\<rparr>,
               None,
               Some \<lparr>ref = 2, track_id = ''4uLU6hMCjMI75M1A2tKUQC'', track_name = ''Song''\<rparr>,
               None] =
     [Some \<lparr>ref = 1, track_id = ''4uLU6hMCjMI75M1A2tKUQC'', track_name = ''Song''\<rparr>,
      None,
      Some \<lparr>ref = 2, track_id = ''4uLU6hMCjMI75M1A2tKUQC'', track_name = ''Song''\<rparr>]
   \<and> dedupById [Some \<lparr>ref = 1, track_id = ''4uLU6hMCjMI75M1A2tKUQC'', track_name = ''Song''\<rparr>,
               None,
               Some \<lparr>ref = 2, track_id = ''4uLU6hMCjMI75M1A2tKUQC'', track_name = ''Song''\<rparr>,
               None] =
     [Some \<lparr>ref = 1, track_id = ''4uLU6hMCjMI75M1A2tKUQC'', track_name = ''Song''\<rparr>]"
  by (simp add: dedupBySet_def sameValueZero_def dedupById_def filterIndexed_def findIndex_def sameId_def)

section \<open>Properties of the extractor\<close>

lemma cleanAIResponse_example:
  \<open>cleanAIResponse ''Here: ```json\<newline>{"a":[1, 2 , ] , }\<newline>``` bye'' = Inr ''{"a":[1, 2 ] }''\<close>
  by (simp add: cleanAIResponse_def codeBlockMatch_def fence_def jsonMatch_def fromFirstBrace_def
        upToLastBrace_def trim_def isSpace_def)

subsection \<open>The span between the braces\<close>

lemma upToLastBrace_empty_iff: "upToLastBrace r = [] \<longleftrightarrow> CHR ''}'' \<notin> set r"
  by (auto simp: upToLastBrace_def dropWhile_eq_Nil_conv)

lemma upToLastBrace_append:
  "upToLastBrace (x @ y) = (if upToLastBrace y = [] then upToLastBrace x else x @ upToLastBrace y)"
  by (auto simp: upToLastBrace_def dropWhile_append dropWhile_eq_Nil_conv)

lemma upToLastBrace_Cons:
  "upToLastBrace (c # r) =
     (if upToLastBrace r = [] then (if c = CHR ''}'' then [c] else []) else c # upToLastBrace r)"
proof -
  have "upToLastBrace [c] = (if c = CHR ''}'' then [c] else [])"
    by (simp add: upToLastBrace_def)
  then show ?thesis
    using upToLastBrace_append [of "[c]" r] by simp
qed

lemma fromFirstBrace_hd: "fromFirstBrace s \<noteq> [] \<Longrightarrow> hd (fromFirstBrace s) = CHR ''{''"
  unfolding fromFirstBrace_def using hd_dropWhile [of "\<lambda>c. c \<noteq> CHR ''{''" s] by simp

lemma jsonMatch_Some_hd:
  assumes "jsonMatch s = Some m"
  shows "\<exists>rest. m = CHR ''{'' # rest"
proof -
  from assms have m: "m = upToLastBrace (fromFirstBrace s)" and ne: "m \<noteq> []"
    by (auto simp: jsonMatch_def Let_def split: if_splits)
  then have "fromFirstBrace s \<noteq> []"
    by (auto simp: upToLastBrace_def)
  then obtain r where r: "fromFirstBrace s = CHR ''{'' # r"
    using fromFirstBrace_hd [of s] by (cases "fromFirstBrace s") auto
  show ?thesis
    using m ne unfolding r upToLastBrace_Cons by (auto split: if_splits)
qed

lemma cleanAIResponse_Inr_hd:
  assumes "cleanAIResponse data = Inr s"
  shows "\<exists>rest. s = CHR ''{'' # rest"
proof -
  from assms obtain m where "jsonMatch (case codeBlockMatch data of None \<Rightarrow> data | Some c \<Rightarrow> trim c) = Some m"
    and s: "s = stripTrailingCommas m"
    by (auto simp: cleanAIResponse_def Let_def split: option.splits)
  then obtain rest where "m = CHR ''{'' # rest"
    using jsonMatch_Some_hd by blast
  then show ?thesis
    unfolding s by simp
qed

lemma cleanAIResponse_Inl:
  "cleanAIResponse data = Inl e \<Longrightarrow> e = ParseError NoJsonObjectFound"
  by (auto simp: cleanAIResponse_def Let_def split: option.splits)

lemma truncateAtBalance_hd: "truncateAtBalance (CHR ''{'' # rest) = CHR ''{'' # braceScan 1 rest"
  by (simp add: truncateAtBalance_def)

subsection \<open>A text that opens with a brace parses to an object\<close>

lemma complete_objInv:
  assumes "st \<noteq> []" "last st = FObj ms" "complete v st = Some p'"
  shows "objInv p'"
  using assms by (cases "(v, st)" rule: complete.cases) (auto simp: objInv_def split: if_splits)

lemma closeObj_objInv:
  assumes "st \<noteq> []" "last st = FObj ms" "closeObj st = Some p'"
  shows "objInv p'"
proof -
  from assms(3) obtain ms' st' where st: "st = FObj ms' # st'" and c: "complete (JObject (rev ms')) st' = Some p'"
    by (auto simp: closeObj_def split: list.splits frame.splits)
  show ?thesis
  proof (cases "st' = []")
    case True
    with c show ?thesis by (auto simp: objInv_def)
  next
    case False
    with assms(2) st have "last st' = FObj ms" by simp
    from complete_objInv [OF False this c] show ?thesis .
  qed
qed

lemma closeArr_objInv:
  assumes "st \<noteq> []" "last st = FObj ms" "closeArr st = Some p'"
  shows "objInv p'"
proof -
  from assms(3) obtain xs st' where st: "st = FArr xs # st'" and c: "complete (JArray (rev xs)) st' = Some p'"
    by (auto simp: closeArr_def split: list.splits frame.splits)
  from assms(2) st have ne: "st' \<noteq> []" by auto
  with assms(2) st have "last st' = FObj ms" by simp
  from complete_objInv [OF ne this c] show ?thesis .
qed

lemma startValue_objInv:
  assumes "st \<noteq> []" "last st = FObj ms" "startValue t st = Some p'"
  shows "objInv p'"
  using assms complete_objInv [OF assms(1,2)]
  by (cases t) (auto simp: startValue_def objInv_def)

lemma emit_objInv:
  assumes "objInv p" "emit t p = Some p'"
  shows "objInv p'"
proof -
  obtain st m where p: "p = (st, m)" by (cases p)
  show ?thesis
  proof (cases "st = []")
    case True
    with assms(1) p obtain ms where "m = PDone (JObject ms)" by (auto simp: objInv_def)
    with assms(2) p show ?thesis by (simp add: emit_def)
  next
    case False
    with assms(1) p obtain ms where l: "last st = FObj ms" by (auto simp: objInv_def)
    have keep: "objInv (st, m')" for m'
      using False l by (simp add: objInv_def)
    have push: "objInv (f # st, m')" for f m'
      using False l by (simp add: objInv_def)
    show ?thesis
      using assms(2) False l keep push
        startValue_objInv [OF False l] closeArr_objInv [OF False l] closeObj_objInv [OF False l]
      unfolding p emit_def
      by (cases m; cases t) auto
  qed
qed

lemma flushWord_objInv:
  "objInv p \<Longrightarrow> flushWord w p = Some p' \<Longrightarrow> objInv p'"
  by (auto simp: flushWord_def split: option.splits dest: emit_objInv)

lemma step_objInv:
  assumes "objInv p" "step (l, p) c = Some (l', p')"
  shows "objInv p'"
proof (cases l)
  case Between
  with assms show ?thesis
    by (auto simp: step_def split: if_splits option.splits dest: emit_objInv)
next
  case (InWord w)
  with assms show ?thesis
    by (auto simp: step_def bind_eq_Some_conv split: if_splits option.splits
             dest: emit_objInv flushWord_objInv)
next
  case (InStr acc)
  with assms show ?thesis
    by (auto simp: step_def split: if_splits option.splits dest: emit_objInv)
next
  case (InEsc acc)
  with assms show ?thesis
    by (auto simp: step_def split: if_splits option.splits)
next
  case (InHex acc hs)
  with assms show ?thesis
    by (auto simp: step_def split: if_splits option.splits)
qed

lemma run_Nil: "run [] so = so"
  by (simp add: run_def)

lemma run_Cons: "run (c # cs) so = run cs (feed c so)"
  by (simp add: run_def)

lemma run_append: "run (a @ b) so = run b (run a so)"
  by (simp add: run_def)

lemma run_None: "run cs None = None"
  by (induction cs) (simp_all add: run_Nil run_Cons feed_def)

lemma run_objInv:
  "objInv p \<Longrightarrow> run cs (Some (l, p)) = Some (l', p') \<Longrightarrow> objInv p'"
proof (induction cs arbitrary: l p)
  case Nil
  then show ?case by (simp add: run_Nil)
next
  case (Cons c cs)
  show ?case
  proof (cases "step (l, p) c")
    case None
    with Cons.prems(2) show ?thesis
      by (simp add: run_Cons feed_def run_None)
  next
    case (Some s)
    obtain l1 p1 where s: "s = (l1, p1)" by (cases s)
    from Some s Cons.prems(1) have "objInv p1" by (auto dest: step_objInv)
    moreover from Some s Cons.prems(2) have "run cs (Some (l1, p1)) = Some (l', p')"
      by (simp add: run_Cons feed_def)
    ultimately show ?thesis by (rule Cons.IH)
  qed
qed

lemma finish_objInv:
  assumes "objInv p" "finish (l, p) = Some v"
  shows "\<exists>ms. v = JObject ms"
proof (cases l)
  case Between
  with assms show ?thesis
    by (auto simp: finish_def objInv_def split: list.splits pmode.splits)
next
  case (InWord w)
  with assms(2) have "flushWord w p = Some ([], PDone v)"
    by (auto simp: finish_def split: option.splits list.splits pmode.splits)
  with assms(1) have "objInv ([], PDone v)" by (rule flushWord_objInv)
  then show ?thesis by (simp add: objInv_def)
next
  case (InStr acc)
  with assms(2) show ?thesis by (simp add: finish_def)
next
  case (InEsc acc)
  with assms(2) show ?thesis by (simp add: finish_def)
next
  case (InHex acc hs)
  with assms(2) show ?thesis by (simp add: finish_def)
qed

lemma JSON_parse_brace_object:
  assumes "JSON_parse (CHR ''{'' # rest) = Some v"
  shows "\<exists>ms. v = JObject ms"
proof -
  have first: "feed CHR ''{'' (Some (Between, [], PValue)) = Some (Between, [FObj []], PObjFirst)"
    by (simp add: feed_def step_def jsonWs_def punct_def emit_def startValue_def)
  from assms obtain l p where r: "run rest (Some (Between, [FObj []], PObjFirst)) = Some (l, p)"
    and f: "finish (l, p) = Some v"
    unfolding JSON_parse_def run_Cons first
    by (cases "run rest (Some (Between, [FObj []], PObjFirst))") auto
  have "objInv ([FObj []], PObjFirst)" by (simp add: objInv_def)
  from run_objInv [OF this r] f show ?thesis by (rule finish_objInv)
qed

lemma validatePlaylist_object:
  "validatePlaylist (JObject ms) =
     (case map_of (rev ms) (map of_char ''tracks'') of
        Some (JArray (x # xs)) \<Rightarrow> Inr (JObject ms)
      | _ \<Rightarrow> Inl ValidationError)"
  by (simp add: validatePlaylist_def getProp_def falsy_def isArray_def arrayLength_def
           split: option.splits json.splits list.splits)

lemma parseAiPlaylistResponse_parsed:
  assumes "cleanAIResponse data = Inr s"
    and "JSON_parse s = Some p \<or> (JSON_parse s = None \<and> JSON_parse (truncateAtBalance s) = Some p)"
  shows "\<exists>ms. p = JObject ms \<and> parseAiPlaylistResponse data = validatePlaylist (JObject ms)"
proof -
  obtain rest where s: "s = CHR ''{'' # rest"
    using cleanAIResponse_Inr_hd [OF assms(1)] by blast
  from assms(2) have "JSON_parse (CHR ''{'' # rest) = Some p \<or> JSON_parse (CHR ''{'' # braceScan 1 rest) = Some p"
    unfolding s truncateAtBalance_hd by blast
  then obtain ms where p: "p = JObject ms"
    using JSON_parse_brace_object by blast
  from assms have "parseAiPlaylistResponse data = validatePlaylist p"
    by (auto simp: parseAiPlaylistResponse_def)
  with p show ?thesis by simp
qed

text \<open>
  C8. For every response text: when no JSON object is found, or when both parse attempts
  fail, \<open>parseAiPlaylistResponse\<close> fails with a \<open>ParseError\<close>; when an attempt
  succeeds, the parsed value is an object, and the function fails with
  \<open>ValidationError\<close> if its \<^verbatim>\<open>tracks\<close> is missing, is not a list or is the
  empty list, and returns the object otherwise. So whatever it returns has a non-empty
  list of tracks.
\<close>

theorem parseAiPlaylistResponse_fails_or_has_tracks:
  "(\<forall>e. cleanAIResponse data = Inl e \<longrightarrow>
        parseAiPlaylistResponse data = Inl (ParseError NoJsonObjectFound))
   \<and> (\<forall>s. cleanAIResponse data = Inr s \<and> JSON_parse s = None
            \<and> JSON_parse (truncateAtBalance s) = None \<longrightarrow>
        parseAiPlaylistResponse data = Inl (ParseError FailedToParse))
   \<and> (\<forall>s p. cleanAIResponse data = Inr s
            \<and> (JSON_parse s = Some p
                \<or> (JSON_parse s = None \<and> JSON_parse (truncateAtBalance s) = Some p)) \<longrightarrow>
        (\<exists>ms. p = JObject ms
           \<and> (map_of (rev ms) (map of_char ''tracks'') = None
                \<or> (\<exists>v. map_of (rev ms) (map of_char ''tracks'') = Some v \<and> \<not> isArray (Some v))
                \<or> map_of (rev ms) (map of_char ''tracks'') = Some (JArray [])
              \<longrightarrow> parseAiPlaylistResponse data = Inl ValidationError)
           \<and> (\<forall>x xs. map_of (rev ms) (map of_char ''tracks'') = Some (JArray (x # xs))
              \<longrightarrow> parseAiPlaylistResponse data = Inr p)))
   \<and> (\<forall>p. parseAiPlaylistResponse data = Inr p \<longrightarrow>
        (\<exists>ms x xs. p = JObject ms \<and> map_of (rev ms) (map of_char ''tracks'') = Some (JArray (x # xs))))"
proof (intro conjI allI impI)
  fix e
  assume "cleanAIResponse data = Inl e"
  then show "parseAiPlaylistResponse data = Inl (ParseError NoJsonObjectFound)"
    using cleanAIResponse_Inl [of data e] by (simp add: parseAiPlaylistResponse_def)
next
  fix s
  assume "cleanAIResponse data = Inr s \<and> JSON_parse s = None \<and> JSON_parse (truncateAtBalance s) = None"
  then show "parseAiPlaylistResponse data = Inl (ParseError FailedToParse)"
    by (simp add: parseAiPlaylistResponse_def)
next
  fix s p
  assume a: "cleanAIResponse data = Inr s
            \<and> (JSON_parse s = Some p
                \<or> (JSON_parse s = None \<and> JSON_parse (truncateAtBalance s) = Some p))"
  then obtain ms where p: "p = JObject ms"
    and r: "parseAiPlaylistResponse data = validatePlaylist (JObject ms)"
    using parseAiPlaylistResponse_parsed [of data s p] by blast
  have bad: "map_of (rev ms) (map of_char ''tracks'') = None
                \<or> (\<exists>v. map_of (rev ms) (map of_char ''tracks'') = Some v \<and> \<not> isArray (Some v))
                \<or> map_of (rev ms) (map of_char ''tracks'') = Some (JArray [])
              \<longrightarrow> parseAiPlaylistResponse data = Inl ValidationError"
    unfolding r validatePlaylist_object
    by (auto simp: isArray_def split: option.splits json.splits list.splits)
  have good: "\<forall>x xs. map_of (rev ms) (map of_char ''tracks'') = Some (JArray (x # xs))
              \<longrightarrow> parseAiPlaylistResponse data = Inr p"
    unfolding r validatePlaylist_object p by simp
  from p bad good
  show "\<exists>ms. p = JObject ms
           \<and> (map_of (rev ms) (map of_char ''tracks'') = None
                \<or> (\<exists>v. map_of (rev ms) (map of_char ''tracks'') = Some v \<and> \<not> isArray (Some v))
                \<or> map_of (rev ms) (map of_char ''tracks'') = Some (JArray [])
              \<longrightarrow> parseAiPlaylistResponse data = Inl ValidationError)
           \<and> (\<forall>x xs. map_of (rev ms) (map of_char ''tracks'') = Some (JArray (x # xs))
              \<longrightarrow> parseAiPlaylistResponse data = Inr p)"
    by blast
next
  fix p
  assume a: "parseAiPlaylistResponse data = Inr p"
  then obtain s where s: "cleanAIResponse data = Inr s"
    by (cases "cleanAIResponse data") (simp_all add: parseAiPlaylistResponse_def)
  have "\<exists>q. JSON_parse s = Some q \<or> (JSON_parse s = None \<and> JSON_parse (truncateAtBalance s) = Some q)"
    using a s by (auto simp: parseAiPlaylistResponse_def split: option.splits)
  then obtain q ms where q: "q = JObject ms"
    and r: "parseAiPlaylistResponse data = validatePlaylist (JObject ms)"
    using parseAiPlaylistResponse_parsed [OF s] by blast
  from a r have v: "validatePlaylist (JObject ms) = Inr p" by simp
  then show "\<exists>ms x xs. p = JObject ms \<and> map_of (rev ms) (map of_char ''tracks'') = Some (JArray (x # xs))"
    unfolding validatePlaylist_object
    by (auto split: option.splits json.splits list.splits)
qed

theorem parseAiPlaylistResponse_fails_or_has_tracks_witness:
  \<open>parseAiPlaylistResponse ''I cannot help with that.'' = Inl (ParseError NoJsonObjectFound)
   \<and> parseAiPlaylistResponse ''{"tracks":[{"title":"a" "artist":"b"}]}'' = Inl (ParseError FailedToParse)
   \<and> parseAiPlaylistResponse ''Sorry! {"name":"Empty","tracks":[]}'' = Inl ValidationError
   \<and> (\<exists>ms x xs. JObject [(map of_char ''tracks'', JArray [jstr ''a''])] = JObject ms
          \<and> map_of (rev ms) (map of_char ''tracks'') = Some (JArray (x # xs)))\<close>
proof (intro conjI)
  have c: \<open>cleanAIResponse ''I cannot help with that.'' = Inl (ParseError NoJsonObjectFound)\<close>
    by code_simp
  show \<open>parseAiPlaylistResponse ''I cannot help with that.'' = Inl (ParseError NoJsonObjectFound)\<close>
    using parseAiPlaylistResponse_fails_or_has_tracks
            [THEN conjunct1, THEN spec, of _ "ParseError NoJsonObjectFound"] c
    by (rule mp)
next
  let ?s = \<open>''{"tracks":[{"title":"a" "artist":"b"}]}''\<close>
  have c: "cleanAIResponse ?s = Inr ?s"
    by code_simp
  have p1: "JSON_parse ?s = None"
    by code_simp
  have p2: "JSON_parse (truncateAtBalance ?s) = None"
    by code_simp
  have h: "cleanAIResponse ?s = Inr ?s \<and> JSON_parse ?s = None \<and> JSON_parse (truncateAtBalance ?s) = None"
    using c p1 p2 by (intro conjI)
  show "parseAiPlaylistResponse ?s = Inl (ParseError FailedToParse)"
    using parseAiPlaylistResponse_fails_or_has_tracks
            [THEN conjunct2, THEN conjunct1, THEN spec, of _ ?s] h
    by (rule mp)
next
  let ?data = \<open>''Sorry! {"name":"Empty","tracks":[]}''\<close>
  let ?s = \<open>''{"name":"Empty","tracks":[]}''\<close>
  let ?ms = "[(map of_char ''name'', jstr ''Empty''), (map of_char ''tracks'', JArray [])]"
  have c: "cleanAIResponse ?data = Inr ?s"
    by code_simp
  have p: "JSON_parse ?s = Some (JObject ?ms)"
    by code_simp
  have h: "cleanAIResponse ?data = Inr ?s
            \<and> (JSON_parse ?s = Some (JObject ?ms)
                \<or> (JSON_parse ?s = None \<and> JSON_parse (truncateAtBalance ?s) = Some (JObject ?ms)))"
    using c p by (intro conjI disjI1)
  from parseAiPlaylistResponse_fails_or_has_tracks
         [THEN conjunct2, THEN conjunct2, THEN conjunct1, THEN spec, THEN spec, THEN mp, OF h]
  obtain ms where e: "JObject ?ms = JObject ms"
    and b: "map_of (rev ms) (map of_char ''tracks'') = None
                \<or> (\<exists>v. map_of (rev ms) (map of_char ''tracks'') = Some v \<and> \<not> isArray (Some v))
                \<or> map_of (rev ms) (map of_char ''tracks'') = Some (JArray [])
              \<longrightarrow> parseAiPlaylistResponse ?data = Inl ValidationError"
    by (elim exE conjE)
  from e have ms: "ms = ?ms" by simp
  have "map_of (rev ?ms) (map of_char ''tracks'') = Some (JArray [])"
    by simp
  with b show "parseAiPlaylistResponse ?data = Inl ValidationError"
    unfolding ms by (intro mp [OF b [unfolded ms]] disjI2)
next
  let ?data = \<open>''{"tracks":["a"]}''\<close>
  have r: "parseAiPlaylistResponse ?data = Inr (JObject [(map of_char ''tracks'', JArray [jstr ''a''])])"
    by code_simp
  show "\<exists>ms x xs. JObject [(map of_char ''tracks'', JArray [jstr ''a''])] = JObject ms
          \<and> map_of (rev ms) (map of_char ''tracks'') = Some (JArray (x # xs))"
    using parseAiPlaylistResponse_fails_or_has_tracks
            [THEN conjunct2, THEN conjunct2, THEN conjunct2, THEN spec, of ?data] r
    by (rule mp)
qed

lemma no_songs_example:
  \<open>parseAiPlaylistResponse ''Sorry! {"name":"Empty","tracks":[]}'' = Inl ValidationError\<close>
  by code_simp

lemma no_json_example:
  \<open>parseAiPlaylistResponse ''I cannot help with that.'' = Inl (ParseError NoJsonObjectFound)\<close>
  by code_simp

lemma bad_json_example:
  \<open>parseAiPlaylistResponse ''{"name":"X","tracks":[{"title":"a" "artist":"b"}]}'' = Inl (ParseError FailedToParse)\<close>
  by code_simp

text \<open>
  C10. The text below is a valid JSON object as it stands: \<^verbatim>\<open>JSON.parse\<close> gives an
  object with the name \<^verbatim>\<open>Mix [rock, pop,]\<close>. It has no fenced block and is itself
  the span from its first to its last brace, so it reaches the comma rewrite unchanged.
  The comma behind \<^verbatim>\<open>pop\<close> stands inside a string literal, before a closing
  bracket; \<open>stripTrailingCommas\<close> removes it, and the extractor returns the parse of
  the rewritten text, with the name \<^verbatim>\<open>Mix [rock, pop]\<close>: not the object that
  \<^verbatim>\<open>JSON.parse\<close> gives for the text.
\<close>

theorem cleanup_changes_valid_json:
  \<open>JSON_parse (''{"name":"Mix [rock, pop'' @ '','' @ '']","tracks":[{"title":"So What","artist":"Miles Davis"}]}'') =
     Some (JObject [(map of_char ''name'', jstr ''Mix [rock, pop,]''),
                    (map of_char ''tracks'',
                     JArray [JObject [(map of_char ''title'', jstr ''So What''),
                                      (map of_char ''artist'', jstr ''Miles Davis'')]])])
   \<and> insideStringLiteral ''{"name":"Mix [rock, pop''
   \<and> codeBlockMatch (''{"name":"Mix [rock, pop'' @ '','' @ '']","tracks":[{"title":"So What","artist":"Miles Davis"}]}'') = None
   \<and> jsonMatch (''{"name":"Mix [rock, pop'' @ '','' @ '']","tracks":[{"title":"So What","artist":"Miles Davis"}]}'') =
       Some (''{"name":"Mix [rock, pop'' @ '','' @ '']","tracks":[{"title":"So What","artist":"Miles Davis"}]}'')
   \<and> stripTrailingCommas (''{"name":"Mix [rock, pop'' @ '','' @ '']","tracks":[{"title":"So What","artist":"Miles Davis"}]}'') =
       ''{"name":"Mix [rock, pop'' @ '']","tracks":[{"title":"So What","artist":"Miles Davis"}]}''
   \<and> cleanAIResponse (''{"name":"Mix [rock, pop'' @ '','' @ '']","tracks":[{"title":"So What","artist":"Miles Davis"}]}'') =
       Inr (''{"name":"Mix [rock, pop'' @ '']","tracks":[{"title":"So What","artist":"Miles Davis"}]}'')
   \<and> parseAiPlaylistResponse (''{"name":"Mix [rock, pop'' @ '','' @ '']","tracks":[{"title":"So What","artist":"Miles Davis"}]}'') =
       Inr (JObject [(map of_char ''name'', jstr ''Mix [rock, pop]''),
                     (map of_char ''tracks'',
                      JArray [JObject [(map of_char ''title'', jstr ''So What''),
                                       (map of_char ''artist'', jstr ''Miles Davis'')]])])
   \<and> parseAiPlaylistResponse (''{"name":"Mix [rock, pop'' @ '','' @ '']","tracks":[{"title":"So What","artist":"Miles Davis"}]}'') \<noteq>
       Inr (JObject [(map of_char ''name'', jstr ''Mix [rock, pop,]''),
                     (map of_char ''tracks'',
                      JArray [JObject [(map of_char ''title'', jstr ''So What''),
                                       (map of_char ''artist'', jstr ''Miles Davis'')]])])\<close>
  by (intro conjI; code_simp)

subsection \<open>The comma rewrite on a text of two parts\<close>

lemma dropWhile_isSpace_append:
  "dropWhile isSpace cs = d # r \<Longrightarrow> dropWhile isSpace (cs @ b) = d # r @ b"
  by (induction cs) (auto split: if_splits)

lemma dropWhile_Cons_last:
  "dropWhile P cs = d # r \<Longrightarrow> r \<noteq> [] \<Longrightarrow> last r = last cs"
  by (induction cs) (auto split: if_splits)

lemma dropWhile_Nil_last:
  "dropWhile P cs = [] \<Longrightarrow> cs \<noteq> [] \<Longrightarrow> P (last cs)"
  by (induction cs) (auto split: if_splits)

lemma strip_noncomma:
  "c \<noteq> CHR '','' \<Longrightarrow> stripTrailingCommas (c # cs) = c # stripTrailingCommas cs"
  by simp

lemma strip_comma_close:
  assumes "dropWhile isSpace cs = d # r" "d = CHR ''}'' \<or> d = CHR '']''"
  shows "stripTrailingCommas (CHR '','' # cs) = d # stripTrailingCommas r"
  using assms(2) by (simp add: assms(1))

lemma strip_comma_keep:
  assumes "dropWhile isSpace cs = d # r" "\<not> (d = CHR ''}'' \<or> d = CHR '']'')"
  shows "stripTrailingCommas (CHR '','' # cs) = CHR '','' # stripTrailingCommas cs"
  using assms(2) by (simp add: assms(1))

lemma strip_comma_end:
  assumes "dropWhile isSpace cs = []"
  shows "stripTrailingCommas (CHR '','' # cs) = CHR '','' # stripTrailingCommas cs"
  by (simp add: assms)

lemma stripTrailingCommas_append:
  "a \<noteq> [] \<Longrightarrow> \<not> isSpace (last a) \<Longrightarrow> last a \<noteq> CHR '','' \<Longrightarrow>
   stripTrailingCommas (a @ b) = stripTrailingCommas a @ stripTrailingCommas b"
proof (induction a rule: stripTrailingCommas.induct)
  case 1
  then show ?case by simp
next
  case (2 c cs)
  show ?case
  proof (cases "cs = []")
    case True
    with "2.prems" have nc: "c \<noteq> CHR '',''" by simp
    show ?thesis
      unfolding True append_Cons append_Nil strip_noncomma [OF nc] stripTrailingCommas.simps(1)
      by simp
  next
    case ne: False
    then have l: "last cs = last (c # cs)" by simp
    have p: "\<not> isSpace (last cs)" "last cs \<noteq> CHR '',''"
      using "2.prems" l by simp_all
    show ?thesis
    proof (cases "c = CHR '',''")
      case False
      have "stripTrailingCommas (cs @ b) = stripTrailingCommas cs @ stripTrailingCommas b"
        using "2.IH"(4) [OF False ne p] .
      then show ?thesis
        unfolding append_Cons strip_noncomma [OF False] by simp
    next
      case True
      show ?thesis
      proof (cases "dropWhile isSpace cs")
        case Nil
        then have "isSpace (last cs)" using ne by (rule dropWhile_Nil_last)
        with p show ?thesis by simp
      next
        case (Cons d r)
        note app = dropWhile_isSpace_append [OF Cons, of b]
        show ?thesis
        proof (cases "d = CHR ''}'' \<or> d = CHR '']''")
          case False
          have "stripTrailingCommas (cs @ b) = stripTrailingCommas cs @ stripTrailingCommas b"
            using "2.IH"(3) [OF True Cons False ne p] .
          then show ?thesis
            unfolding True append_Cons strip_comma_keep [OF Cons False] strip_comma_keep [OF app False]
            by simp
        next
          case closer: True
          have "stripTrailingCommas (r @ b) = stripTrailingCommas r @ stripTrailingCommas b"
          proof (cases "r = []")
            case True
            then show ?thesis by simp
          next
            case False
            with Cons have "last r = last cs" by (simp add: dropWhile_Cons_last)
            with "2.IH"(2) [OF True Cons closer False] p show ?thesis by simp
          qed
          then show ?thesis
            unfolding True append_Cons strip_comma_close [OF Cons closer] strip_comma_close [OF app closer]
            by simp
        qed
      qed
    qed
  qed
qed

lemma stripTrailingCommas_keeps_brace:
  "CHR ''}'' \<in> set a \<Longrightarrow> CHR ''}'' \<in> set (stripTrailingCommas a)"
proof (induction a rule: stripTrailingCommas.induct)
  case 1
  then show ?case by simp
next
  case (2 c cs)
  show ?case
  proof (cases "c = CHR '',''")
    case False
    show ?thesis
    proof (cases "c = CHR ''}''")
      case True
      then show ?thesis unfolding strip_noncomma [OF False] by simp
    next
      case nb: False
      with "2.prems" have "CHR ''}'' \<in> set cs" by simp
      then have "CHR ''}'' \<in> set (stripTrailingCommas cs)" by (rule "2.IH"(4) [OF False])
      then show ?thesis unfolding strip_noncomma [OF False] by simp
    qed
  next
    case True
    with "2.prems" have in_cs: "CHR ''}'' \<in> set cs" by simp
    show ?thesis
    proof (cases "dropWhile isSpace cs")
      case Nil
      have "CHR ''}'' \<in> set (stripTrailingCommas cs)" using in_cs by (rule "2.IH"(1) [OF True Nil])
      then show ?thesis unfolding True strip_comma_end [OF Nil] by simp
    next
      case (Cons d r)
      have "set cs \<subseteq> {x. isSpace x} \<union> set (dropWhile isSpace cs)"
        by (induction cs) auto
      moreover have "\<not> isSpace CHR ''}''" by (simp add: isSpace_def)
      ultimately have "CHR ''}'' \<in> set (dropWhile isSpace cs)"
        using in_cs by blast
      with Cons have dr: "d = CHR ''}'' \<or> CHR ''}'' \<in> set r" by auto
      show ?thesis
      proof (cases "d = CHR ''}'' \<or> d = CHR '']''")
        case False
        have "CHR ''}'' \<in> set (stripTrailingCommas cs)"
          using in_cs by (rule "2.IH"(3) [OF True Cons False])
        then show ?thesis unfolding True strip_comma_keep [OF Cons False] by simp
      next
        case closer: True
        show ?thesis
        proof (cases "d = CHR ''}''")
          case True
          then show ?thesis unfolding \<open>c = CHR '',''\<close> strip_comma_close [OF Cons closer] by simp
        next
          case False
          with dr have "CHR ''}'' \<in> set r" by simp
          then have "CHR ''}'' \<in> set (stripTrailingCommas r)"
            by (rule "2.IH"(2) [OF \<open>c = CHR '',''\<close> Cons closer])
          then show ?thesis unfolding \<open>c = CHR '',''\<close> strip_comma_close [OF Cons closer] by simp
        qed
      qed
    qed
  qed
qed

subsection \<open>The brace count on a text of two parts\<close>

lemma closesAtEnd_braceScan: "closesAtEnd n J \<Longrightarrow> braceScan n (J @ Y) = J"
  by (induction n J rule: closesAtEnd.induct) (auto split: if_splits)

lemma closesAtEnd_last: "closesAtEnd n J \<Longrightarrow> J \<noteq> [] \<and> last J = CHR ''}''"
  by (induction n J rule: closesAtEnd.induct) (auto split: if_splits)

subsection \<open>Nothing may follow a parsed object\<close>

lemma emit_done: "emit t (st, PDone v) = None"
  by (simp add: emit_def)

lemma flushWord_done: "flushWord w (st, PDone v) = None"
  by (simp add: flushWord_def emit_done split: option.splits)

lemma finish_Between: "finish (Between, p) = Some v \<Longrightarrow> p = ([], PDone v)"
  by (auto simp: finish_def split: list.splits pmode.splits prod.splits)

lemma step_brace_mode:
  assumes "step (l, p) CHR ''}'' = Some (l', p')"
  shows "l' = Between \<or> (\<exists>acc. l' = InStr acc)"
  using assms
  by (cases l) (auto simp: step_def jsonWs_def punct_def escapeUnit_def hexDigit_def
                     split: if_splits option.splits)

lemma run_ends_done:
  assumes "JSON_parse (B @ [CHR ''}'']) = Some v"
  shows "run (B @ [CHR ''}'']) (Some (Between, [], PValue)) = Some (Between, [], PDone v)"
proof -
  let ?so = "run B (Some (Between, [], PValue))"
  have r: "run (B @ [CHR ''}'']) (Some (Between, [], PValue)) = feed CHR ''}'' ?so"
    by (simp add: run_append run_Cons run_Nil)
  from assms obtain s' where s': "feed CHR ''}'' ?so = Some s'" and f: "finish s' = Some v"
    unfolding JSON_parse_def r by (cases "feed CHR ''}'' ?so") auto
  from s' obtain l p where so: "?so = Some (l, p)" and st: "step (l, p) CHR ''}'' = Some s'"
    by (cases ?so) (auto simp: feed_def)
  obtain l' p' where lp: "s' = (l', p')" by (cases s')
  from st lp have "l' = Between \<or> (\<exists>acc. l' = InStr acc)"
    using step_brace_mode by blast
  then have "l' = Between"
  proof
    assume "\<exists>acc. l' = InStr acc"
    with f lp show ?thesis by (auto simp: finish_def)
  qed
  with f lp have "s' = (Between, [], PDone v)"
    using finish_Between by auto
  with r s' show ?thesis by simp
qed

lemma step_done:
  "step (l, [], PDone v) c = None
   \<or> (\<exists>l'. step (l, [], PDone v) c = Some (l', [], PDone v) \<and> (l' = Between \<longrightarrow> l = Between \<and> jsonWs c))"
  by (cases l) (auto simp: step_def emit_done flushWord_done split: option.splits)

lemma finish_done_midtoken: "l \<noteq> Between \<Longrightarrow> finish (l, [], PDone v) = None"
  by (cases l) (simp_all add: finish_def flushWord_done)

lemma done_then_garbage:
  "l \<noteq> Between \<or> (\<exists>c \<in> set Y. \<not> jsonWs c) \<Longrightarrow>
   Option.bind (run Y (Some (l, [], PDone v))) finish = None"
proof (induction Y arbitrary: l)
  case Nil
  then show ?case by (simp add: run_Nil finish_done_midtoken)
next
  case (Cons c cs)
  from step_done [of l v c] show ?case
  proof
    assume "step (l, [], PDone v) c = None"
    then show ?thesis by (simp add: run_Cons feed_def run_None)
  next
    assume "\<exists>l'. step (l, [], PDone v) c = Some (l', [], PDone v) \<and> (l' = Between \<longrightarrow> l = Between \<and> jsonWs c)"
    then obtain l' where s: "step (l, [], PDone v) c = Some (l', [], PDone v)"
      and b: "l' = Between \<longrightarrow> l = Between \<and> jsonWs c"
      by blast
    have "l' \<noteq> Between \<or> (\<exists>c \<in> set cs. \<not> jsonWs c)"
      using b Cons.prems by auto
    then have "Option.bind (run cs (Some (l', [], PDone v))) finish = None"
      by (rule Cons.IH)
    then show ?thesis by (simp add: run_Cons feed_def s)
  qed
qed

lemma JSON_parse_trailing_garbage:
  assumes "JSON_parse J = Some v" "J \<noteq> []" "last J = CHR ''}''" "\<exists>c \<in> set Y. \<not> jsonWs c"
  shows "JSON_parse (J @ Y) = None"
proof -
  from assms(2,3) obtain B where J: "J = B @ [CHR ''}'']"
    by (metis append_butlast_last_id)
  from assms(1) have "run J (Some (Between, [], PValue)) = Some (Between, [], PDone v)"
    unfolding J by (rule run_ends_done)
  then show ?thesis
    using done_then_garbage [of Between Y v] assms(4)
    by (simp add: JSON_parse_def run_append)
qed

lemma upToLastBrace_nonempty_has_brace:
  assumes "upToLastBrace P \<noteq> []"
  shows "CHR ''}'' \<in> set (upToLastBrace P)"
proof -
  let ?d = "dropWhile (\<lambda>c. c \<noteq> CHR ''}'') (rev P)"
  from assms have ne: "?d \<noteq> []" by (simp add: upToLastBrace_def)
  then have "hd ?d = CHR ''}''" using hd_dropWhile [OF ne] by simp
  moreover have "hd ?d \<in> set ?d" using ne by (rule hd_in_set)
  ultimately show ?thesis by (simp add: upToLastBrace_def)
qed

lemma upToLastBrace_closed: "upToLastBrace (B @ [CHR ''}'']) = B @ [CHR ''}'']"
proof -
  have "upToLastBrace [CHR ''}''] = [CHR ''}'']" by (simp add: upToLastBrace_def)
  then show ?thesis using upToLastBrace_append [of B "[CHR ''}'']"] by simp
qed

lemma jsonMatch_object_then_prose:
  assumes "J = CHR ''{'' # rest" "J \<noteq> []" "last J = CHR ''}''"
  shows "jsonMatch (J @ P) = Some (J @ upToLastBrace P)"
proof -
  from assms(2,3) obtain B where B: "J = B @ [CHR ''}'']"
    by (metis append_butlast_last_id)
  have f: "fromFirstBrace (J @ P) = J @ P"
    unfolding assms(1) by (simp add: fromFirstBrace_def)
  have "upToLastBrace J = J" unfolding B by (rule upToLastBrace_closed)
  then have u: "upToLastBrace (J @ P) = J @ upToLastBrace P"
    using upToLastBrace_append [of J P] by simp
  show ?thesis
    using assms(2) by (simp add: jsonMatch_def f u)
qed

subsection \<open>The brace count of a valid object\<close>

text \<open>
  Outside the string literals a brace is a token of the JSON reader: an opening brace
  puts an object under construction, a closing brace completes the innermost one. So
  behind every prefix of a text whose braces all stand outside the string literals, the
  brace count is the number of objects under construction. In a text that opens with a
  brace that number is at least one until the outermost object is complete, and behind
  the complete object the reader takes white space only: when the text parses and ends
  with a closing brace, the count comes back to zero at its last character and not
  before.
\<close>

lemma step_qmode:
  "step (l, p) c = Some (l', p') \<Longrightarrow> qmode l' = qstep (qmode l) c"
  by (cases l)
     (auto simp: step_def jsonWs_def punct_def hexDigit_def escapeUnit_def Let_def
           split: if_splits option.splits)

lemma objDepth_nonneg: "0 \<le> objDepth st"
  by (induction st rule: objDepth.induct) simp_all

lemma objDepth_last_FObj: "st \<noteq> [] \<Longrightarrow> last st = FObj ms \<Longrightarrow> 1 \<le> objDepth st"
proof (induction st rule: objDepth.induct)
  case 1
  then show ?case by simp
next
  case (2 ms' st)
  then show ?case using objDepth_nonneg [of st] by simp
next
  case (3 xs st)
  then show ?case by (cases "st = []") simp_all
next
  case (4 k st)
  then show ?case by (cases "st = []") simp_all
qed

lemma complete_depth: "complete v st = Some (st', m') \<Longrightarrow> objDepth st' = objDepth st"
  by (cases "(v, st)" rule: complete.cases) auto

lemma closeArr_depth: "closeArr st = Some (st', m') \<Longrightarrow> objDepth st' = objDepth st"
  by (auto simp: closeArr_def split: list.splits frame.splits dest: complete_depth)

lemma closeObj_depth: "closeObj st = Some (st', m') \<Longrightarrow> objDepth st' = objDepth st - 1"
  by (auto simp: closeObj_def split: list.splits frame.splits dest: complete_depth)

lemma startValue_depth:
  "startValue t st = Some (st', m') \<Longrightarrow> objDepth st' = objDepth st + tokenDelta t"
  by (cases t) (auto simp: startValue_def tokenDelta_def dest: complete_depth)

lemma emit_depth:
  "emit t (st, m) = Some (st', m') \<Longrightarrow> objDepth st' = objDepth st + tokenDelta t"
  by (cases m; cases t)
     (auto simp: emit_def tokenDelta_def dest: startValue_depth closeArr_depth closeObj_depth)

lemma flushWord_depth:
  "flushWord w (st, m) = Some (st', m') \<Longrightarrow> objDepth st' = objDepth st"
  by (auto simp: flushWord_def tokenDelta_def split: option.splits dest: emit_depth)

lemma punct_delta: "punct c = Some t \<Longrightarrow> tokenDelta t = braceDelta c"
  by (auto simp: punct_def tokenDelta_def braceDelta_def split: if_splits)

lemma punct_None_delta: "punct c = None \<Longrightarrow> braceDelta c = 0"
  by (auto simp: punct_def braceDelta_def split: if_splits)

lemma jsonWs_delta: "jsonWs c \<Longrightarrow> braceDelta c = 0"
  by (auto simp: jsonWs_def braceDelta_def)

lemma quote_delta: "braceDelta CHR 0x22 = 0"
  by (simp add: braceDelta_def)

lemma nobrace_delta: "c \<noteq> CHR ''{'' \<and> c \<noteq> CHR ''}'' \<Longrightarrow> braceDelta c = 0"
  by (simp add: braceDelta_def)

lemma step_Between_depth:
  assumes "step (Between, st, m) c = Some (l', st', m')"
  shows "objDepth st' = objDepth st + braceDelta c"
proof (cases "jsonWs c")
  case True
  with assms show ?thesis by (simp add: step_def jsonWs_delta)
next
  case ws: False
  show ?thesis
  proof (cases "c = CHR 0x22")
    case True
    with assms ws show ?thesis by (simp add: step_def quote_delta)
  next
    case q: False
    show ?thesis
    proof (cases "punct c")
      case None
      with assms ws q show ?thesis by (simp add: step_def punct_None_delta)
    next
      case (Some t)
      with assms ws q have "emit t (st, m) = Some (st', m')"
        by (auto simp: step_def)
      from emit_depth [OF this] punct_delta [OF Some] show ?thesis by simp
    qed
  qed
qed

lemma step_InWord_depth:
  assumes "step (InWord w, st, m) c = Some (l', st', m')"
  shows "objDepth st' = objDepth st + braceDelta c"
proof (cases "jsonWs c")
  case True
  with assms have "flushWord w (st, m) = Some (st', m')" by (auto simp: step_def)
  from flushWord_depth [OF this] True show ?thesis by (simp add: jsonWs_delta)
next
  case ws: False
  show ?thesis
  proof (cases "c = CHR 0x22")
    case True
    with assms ws have "flushWord w (st, m) = Some (st', m')" by (auto simp: step_def)
    from flushWord_depth [OF this] True show ?thesis by (simp add: quote_delta)
  next
    case q: False
    show ?thesis
    proof (cases "punct c")
      case None
      with assms ws q show ?thesis by (simp add: step_def punct_None_delta)
    next
      case (Some t)
      with assms ws q obtain p1 where f: "flushWord w (st, m) = Some p1" and e: "emit t p1 = Some (st', m')"
        by (auto simp: step_def bind_eq_Some_conv)
      obtain st1 m1 where p1: "p1 = (st1, m1)" by (cases p1)
      from flushWord_depth [OF f [unfolded p1]] emit_depth [OF e [unfolded p1]] punct_delta [OF Some]
      show ?thesis by simp
    qed
  qed
qed

lemma step_InStr_depth:
  assumes "step (InStr acc, st, m) c = Some (l', st', m')"
    and "c \<noteq> CHR ''{'' \<and> c \<noteq> CHR ''}''"
  shows "objDepth st' = objDepth st + braceDelta c"
proof (cases "c = CHR 0x22")
  case True
  with assms(1) have "emit (TString (rev acc)) (st, m) = Some (st', m')" by (auto simp: step_def)
  from emit_depth [OF this] True show ?thesis by (simp add: quote_delta tokenDelta_def)
next
  case False
  with assms(1) have "st' = st"
    by (auto simp: step_def split: if_splits)
  with assms(2) show ?thesis by (simp add: nobrace_delta)
qed

lemma step_InEsc_depth:
  assumes "step (InEsc acc, st, m) c = Some (l', st', m')"
    and "c \<noteq> CHR ''{'' \<and> c \<noteq> CHR ''}''"
  shows "objDepth st' = objDepth st + braceDelta c"
proof -
  from assms(1) have "st' = st"
    by (auto simp: step_def split: if_splits option.splits)
  with assms(2) show ?thesis by (simp add: nobrace_delta)
qed

lemma step_InHex_depth:
  assumes "step (InHex acc hs, st, m) c = Some (l', st', m')"
    and "c \<noteq> CHR ''{'' \<and> c \<noteq> CHR ''}''"
  shows "objDepth st' = objDepth st + braceDelta c"
proof -
  from assms(1) have "st' = st"
    by (auto simp: step_def split: if_splits option.splits)
  with assms(2) show ?thesis by (simp add: nobrace_delta)
qed

lemma step_depth:
  assumes "step (l, st, m) c = Some (l', st', m')"
    and "qmode l = Outside \<or> (c \<noteq> CHR ''{'' \<and> c \<noteq> CHR ''}'')"
  shows "objDepth st' = objDepth st + braceDelta c"
proof (cases l)
  case Between
  with assms(1) show ?thesis by (simp add: step_Between_depth)
next
  case (InWord w)
  with assms(1) show ?thesis by (simp add: step_InWord_depth)
next
  case (InStr acc)
  with assms show ?thesis by (simp add: step_InStr_depth)
next
  case (InEsc acc)
  with assms show ?thesis by (simp add: step_InEsc_depth)
next
  case (InHex acc hs)
  with assms show ?thesis by (simp add: step_InHex_depth)
qed


lemma run_from_done:
  "run Y (Some (l, [], PDone v)) = Some (Between, [], PDone v') \<Longrightarrow> l = Between \<and> list_all jsonWs Y"
proof (induction Y arbitrary: l)
  case Nil
  then show ?case by (simp add: run_Nil)
next
  case (Cons c cs)
  from step_done [of l v c] show ?case
  proof
    assume "step (l, [], PDone v) c = None"
    with Cons.prems show ?thesis by (simp add: run_Cons feed_def run_None)
  next
    assume "\<exists>l'. step (l, [], PDone v) c = Some (l', [], PDone v) \<and> (l' = Between \<longrightarrow> l = Between \<and> jsonWs c)"
    then obtain l' where s: "step (l, [], PDone v) c = Some (l', [], PDone v)"
      and b: "l' = Between \<longrightarrow> l = Between \<and> jsonWs c"
      by (elim exE conjE)
    from Cons.prems s have "run cs (Some (l', [], PDone v)) = Some (Between, [], PDone v')"
      by (simp add: run_Cons feed_def)
    from Cons.IH [OF this] b show ?thesis by simp
  qed
qed

lemma closing_brace_not_ws: "\<not> jsonWs CHR ''}''"
  by (simp add: jsonWs_def)

lemma run_closesAtEnd:
  assumes "run cs (Some (l, st, m)) = Some (Between, [], PDone v)"
    and "objInv (st, m)" and "st \<noteq> []"
    and "bracesOutside (qmode l) cs"
    and "cs \<noteq> []" and "last cs = CHR ''}''"
  shows "closesAtEnd (objDepth st) cs"
  using assms
proof (induction cs arbitrary: l st m)
  case Nil
  then show ?case by simp
next
  case (Cons c cs)
  show ?case
  proof (cases "step (l, st, m) c")
    case None
    with Cons.prems(1) show ?thesis by (simp add: run_Cons feed_def run_None)
  next
    case (Some s1)
    obtain l1 st1 m1 where s1: "s1 = (l1, st1, m1)" by (cases s1)
    note stp = Some [unfolded s1]
    from Cons.prems(1) stp have r: "run cs (Some (l1, st1, m1)) = Some (Between, [], PDone v)"
      by (simp add: run_Cons feed_def)
    from Cons.prems(4) have out: "qmode l = Outside \<or> (c \<noteq> CHR ''{'' \<and> c \<noteq> CHR ''}'')"
      and rest: "bracesOutside (qstep (qmode l) c) cs"
      by simp_all
    have d: "objDepth st1 = objDepth st + braceDelta c"
      using stp out by (rule step_depth)
    have q: "qmode l1 = qstep (qmode l) c"
      using stp by (rule step_qmode)
    have inv: "objInv (st1, m1)"
      using Cons.prems(2) stp by (rule step_objInv)
    show ?thesis
    proof (cases "st1 = []")
      case True
      with inv obtain ms where m1: "m1 = PDone (JObject ms)"
        by (auto simp: objInv_def)
      from r [unfolded True m1] have ws: "list_all jsonWs cs"
        using run_from_done by blast
      have cs: "cs = []"
      proof (rule ccontr)
        assume ne: "cs \<noteq> []"
        with Cons.prems(6) have "last cs = CHR ''}''" by simp
        moreover from ne have "last cs \<in> set cs" by simp
        ultimately have "CHR ''}'' \<in> set cs" by simp
        with ws have "jsonWs CHR ''}''" by (simp add: list_all_iff)
        then show False by (simp add: closing_brace_not_ws)
      qed
      with Cons.prems(6) have c: "c = CHR ''}''" by simp
      from d True c have "objDepth st - 1 = 0" by (simp add: braceDelta_def)
      with c cs show ?thesis by simp
    next
      case False
      have ne: "cs \<noteq> []"
      proof
        assume "cs = []"
        with r have "st1 = []" by (simp add: run_Nil)
        with False show False ..
      qed
      with Cons.prems(6) have l: "last cs = CHR ''}''" by simp
      have ih: "closesAtEnd (objDepth st1) cs"
        using r inv False rest [folded q] ne l by (rule Cons.IH)
      from inv False obtain ms where "last st1 = FObj ms"
        by (auto simp: objInv_def)
      with False have pos: "1 \<le> objDepth st1" by (rule objDepth_last_FObj)
      consider "c = CHR ''{''" | "c = CHR ''}''" | "c \<noteq> CHR ''{''" "c \<noteq> CHR ''}''"
        by blast
      then show ?thesis
      proof cases
        case 1
        with ih d show ?thesis by (simp add: braceDelta_def)
      next
        case 2
        with ih d pos show ?thesis by (simp add: braceDelta_def)
      next
        case 3
        with ih d show ?thesis by (simp add: braceDelta_def)
      qed
    qed
  qed
qed

lemma valid_object_closesAtEnd:
  assumes "take 1 J = ''{''" and "last J = CHR ''}''"
    and "JSON_parse J = Some v"
    and "noBraceInStringLiteral J"
  shows "closesAtEnd 0 J"
proof -
  from assms(1) obtain rest where J: "J = CHR ''{'' # rest"
    by (cases J) auto
  from assms(2) J have ne: "rest \<noteq> []" and l: "last rest = CHR ''}''"
    by (auto split: if_splits)
  from J ne l have "J = butlast J @ [CHR ''}'']"
    by (metis append_butlast_last_id assms(2) list.distinct(1))
  with assms(3) have "JSON_parse (butlast J @ [CHR ''}'']) = Some v" by simp
  then have "run (butlast J @ [CHR ''}'']) (Some (Between, [], PValue)) = Some (Between, [], PDone v)"
    by (rule run_ends_done)
  with \<open>J = butlast J @ [CHR ''}'']\<close> have "run J (Some (Between, [], PValue)) = Some (Between, [], PDone v)"
    by simp
  moreover have "feed CHR ''{'' (Some (Between, [], PValue)) = Some (Between, [FObj []], PObjFirst)"
    by (simp add: feed_def step_def jsonWs_def punct_def emit_def startValue_def)
  ultimately have r: "run rest (Some (Between, [FObj []], PObjFirst)) = Some (Between, [], PDone v)"
    unfolding J by (simp add: run_Cons)
  have inv: "objInv ([FObj []], PObjFirst)" by (simp add: objInv_def)
  have b: "bracesOutside (qmode Between) rest"
    using assms(4) unfolding J by (simp add: noBraceInStringLiteral_def)
  have "closesAtEnd (objDepth [FObj []]) rest"
    using r inv _ b ne l by (rule run_closesAtEnd) simp
  then show ?thesis
    unfolding J by simp
qed


text \<open>
  An object whose brace count closes at its end, followed by prose: the candidate is the
  object and the prose up to its last closing brace; what the count cuts off is the prose.
\<close>

lemma object_then_prose:
  assumes "codeBlockMatch (J @ P) = None"
    and "take 1 J = ''{''"
    and "JSON_parse J = Some v"
    and "stripTrailingCommas J = J"
    and "closesAtEnd 0 J"
  shows "\<exists>cleaned. cleanAIResponse (J @ P) = Inr cleaned
           \<and> (cleaned = J \<or> (JSON_parse cleaned = None \<and> truncateAtBalance cleaned = J))
           \<and> parseAiPlaylistResponse (J @ P) = validatePlaylist v"
proof -
  from assms(5) have ne: "J \<noteq> []" and l: "last J = CHR ''}''"
    using closesAtEnd_last by blast+
  from assms(2) ne obtain rest where J: "J = CHR ''{'' # rest"
    by (cases J) auto
  let ?Q = "stripTrailingCommas (upToLastBrace P)"
  have sp: "\<not> isSpace (last J)" "last J \<noteq> CHR '',''"
    unfolding l by (simp_all add: isSpace_def)
  have c: "cleanAIResponse (J @ P) = Inr (J @ ?Q)"
    using assms(1) jsonMatch_object_then_prose [OF J ne l, of P]
      stripTrailingCommas_append [OF ne sp, of "upToLastBrace P"] assms(4)
    by (simp add: cleanAIResponse_def)
  show ?thesis
  proof (cases "upToLastBrace P = []")
    case True
    then have q: "J @ ?Q = J" by simp
    have "parseAiPlaylistResponse (J @ P) = validatePlaylist v"
      using c assms(3) unfolding q by (simp add: parseAiPlaylistResponse_def)
    with c q show ?thesis by simp
  next
    case False
    then have "CHR ''}'' \<in> set (upToLastBrace P)"
      by (rule upToLastBrace_nonempty_has_brace)
    then have "CHR ''}'' \<in> set ?Q"
      by (rule stripTrailingCommas_keeps_brace)
    moreover have "\<not> jsonWs CHR ''}''" by (simp add: jsonWs_def)
    ultimately have "\<exists>c \<in> set ?Q. \<not> jsonWs c" by blast
    with assms(3) ne l have p1: "JSON_parse (J @ ?Q) = None"
      by (rule JSON_parse_trailing_garbage)
    have t: "truncateAtBalance (J @ ?Q) = J"
      using assms(5) by (simp add: truncateAtBalance_def closesAtEnd_braceScan)
    have "parseAiPlaylistResponse (J @ P) = validatePlaylist v"
      using c p1 t assms(3) by (simp add: parseAiPlaylistResponse_def)
    with c p1 t show ?thesis by simp
  qed
qed

text \<open>
  C4, as amended. Take a text that has no fenced block and consists of a JSON object,
  from its opening brace to its closing brace, followed by prose, where the object
  parses, no string literal of the object holds a brace, and the comma rewrite leaves the
  object unchanged. Then the cleaned-up candidate is the object itself (no closing brace
  in the prose), or it does not parse and the cut where the brace count comes back to
  zero gives exactly the object; either way the result is the validated parse of the
  object.
\<close>

theorem truncateAtBalance_recovers_unquoted_braces:
  assumes "codeBlockMatch (J @ P) = None"
    and "take 1 J = ''{''" and "last J = CHR ''}''"
    and "JSON_parse J = Some v"
    and "noBraceInStringLiteral J"
    and "stripTrailingCommas J = J"
  shows "\<exists>cleaned. cleanAIResponse (J @ P) = Inr cleaned
           \<and> (cleaned = J \<or> (JSON_parse cleaned = None \<and> truncateAtBalance cleaned = J))
           \<and> parseAiPlaylistResponse (J @ P) = validatePlaylist v"
proof -
  have "closesAtEnd 0 J"
    using assms(2,3,4,5) by (rule valid_object_closesAtEnd)
  with assms(1,2,4,6) show ?thesis
    by (rule object_then_prose)
qed

theorem truncateAtBalance_recovers_unquoted_braces_witness:
  \<open>parseAiPlaylistResponse
     (''{"name":"Late Night Jazz","tracks":[{"title":"So What","artist":"Miles Davis"}]}''
      @ '' Enjoy! Reply {more} for extra songs.'') =
   Inr (JObject [(map of_char ''name'', jstr ''Late Night Jazz''),
                 (map of_char ''tracks'',
                  JArray [JObject [(map of_char ''title'', jstr ''So What''),
                                   (map of_char ''artist'', jstr ''Miles Davis'')]])])\<close>
proof -
  let ?J = \<open>''{"name":"Late Night Jazz","tracks":[{"title":"So What","artist":"Miles Davis"}]}''\<close>
  let ?P = \<open>'' Enjoy! Reply {more} for extra songs.''\<close>
  let ?v = "JObject [(map of_char ''name'', jstr ''Late Night Jazz''),
                 (map of_char ''tracks'',
                  JArray [JObject [(map of_char ''title'', jstr ''So What''),
                                   (map of_char ''artist'', jstr ''Miles Davis'')]])]"
  have h1: "codeBlockMatch (?J @ ?P) = None" by code_simp
  have h2: "take 1 ?J = ''{''" by simp
  have h3: "last ?J = CHR ''}''" by simp
  have h4: "JSON_parse ?J = Some ?v" by code_simp
  have h5: "noBraceInStringLiteral ?J" by code_simp
  have h6: "stripTrailingCommas ?J = ?J" by code_simp
  have v: "validatePlaylist ?v = Inr ?v" by code_simp
  from truncateAtBalance_recovers_unquoted_braces [OF h1 h2 h3 h4 h5 h6]
  have "parseAiPlaylistResponse (?J @ ?P) = validatePlaylist ?v"
    by (elim exE conjE)
  then show ?thesis
    unfolding v .
qed

text \<open>
  C4 as stated fails, in three ways; each text below is a valid JSON object followed by
  prose and meets two of the three conditions of the amended statement. The brace count
  also counts the braces inside string literals: after the object with the name
  \<^verbatim>\<open>Happy :}\<close>, prose with a closing brace makes the first parse fail, the cut falls
  behind the brace inside the name, and the second parse fails as well. A fenced block in
  the prose is taken for the answer, and the object before it is never looked at. And the
  comma rewrite reaches into the name \<^verbatim>\<open>Hits [80s, 90s, ]\<close>: what the brace count
  recovers is not the object of the text, and its parse has another name.
\<close>

theorem repair_fails_on_valid_object:
  \<open>JSON_parse ''{"name":"Happy :}","tracks":[{"title":"So What","artist":"Miles Davis"}]}'' =
     Some (JObject [(map of_char ''name'', jstr ''Happy :}''),
                    (map of_char ''tracks'',
                     JArray [JObject [(map of_char ''title'', jstr ''So What''),
                                      (map of_char ''artist'', jstr ''Miles Davis'')]])])
   \<and> codeBlockMatch
        (''{"name":"Happy :}","tracks":[{"title":"So What","artist":"Miles Davis"}]}''
         @ '' Enjoy! Reply {more} for extra songs.'') = None
   \<and> stripTrailingCommas ''{"name":"Happy :}","tracks":[{"title":"So What","artist":"Miles Davis"}]}'' =
       ''{"name":"Happy :}","tracks":[{"title":"So What","artist":"Miles Davis"}]}''
   \<and> cleanAIResponse
        (''{"name":"Happy :}","tracks":[{"title":"So What","artist":"Miles Davis"}]}''
         @ '' Enjoy! Reply {more} for extra songs.'') =
       Inr ''{"name":"Happy :}","tracks":[{"title":"So What","artist":"Miles Davis"}]} Enjoy! Reply {more}''
   \<and> truncateAtBalance
        ''{"name":"Happy :}","tracks":[{"title":"So What","artist":"Miles Davis"}]} Enjoy! Reply {more}'' =
       ''{"name":"Happy :}''
   \<and> parseAiPlaylistResponse
        (''{"name":"Happy :}","tracks":[{"title":"So What","artist":"Miles Davis"}]}''
         @ '' Enjoy! Reply {more} for extra songs.'') =
       Inl (ParseError FailedToParse)
   \<and> JSON_parse ''{"name":"Late Night Jazz","tracks":[{"title":"So What","artist":"Miles Davis"}]}'' =
     Some (JObject [(map of_char ''name'', jstr ''Late Night Jazz''),
                    (map of_char ''tracks'',
                     JArray [JObject [(map of_char ''title'', jstr ''So What''),
                                      (map of_char ''artist'', jstr ''Miles Davis'')]])])
   \<and> noBraceInStringLiteral ''{"name":"Late Night Jazz","tracks":[{"title":"So What","artist":"Miles Davis"}]}''
   \<and> stripTrailingCommas ''{"name":"Late Night Jazz","tracks":[{"title":"So What","artist":"Miles Davis"}]}'' =
       ''{"name":"Late Night Jazz","tracks":[{"title":"So What","artist":"Miles Davis"}]}''
   \<and> parseAiPlaylistResponse
        (''{"name":"Late Night Jazz","tracks":[{"title":"So What","artist":"Miles Davis"}]}''
         @ '' Tip: say ```shuffle``` to mix it up.'') =
       Inl (ParseError NoJsonObjectFound)
   \<and> JSON_parse ''{"name":"Hits [80s, 90s, ]","tracks":[{"title":"So What","artist":"Miles Davis"}]}'' =
     Some (JObject [(map of_char ''name'', jstr ''Hits [80s, 90s, ]''),
                    (map of_char ''tracks'',
                     JArray [JObject [(map of_char ''title'', jstr ''So What''),
                                      (map of_char ''artist'', jstr ''Miles Davis'')]])])
   \<and> noBraceInStringLiteral ''{"name":"Hits [80s, 90s, ]","tracks":[{"title":"So What","artist":"Miles Davis"}]}''
   \<and> codeBlockMatch
        (''{"name":"Hits [80s, 90s, ]","tracks":[{"title":"So What","artist":"Miles Davis"}]}''
         @ '' Enjoy! Reply {more} for extra songs.'') = None
   \<and> truncateAtBalance
        ''{"name":"Hits [80s, 90s]","tracks":[{"title":"So What","artist":"Miles Davis"}]} Enjoy! Reply {more}'' =
       ''{"name":"Hits [80s, 90s]","tracks":[{"title":"So What","artist":"Miles Davis"}]}''
   \<and> cleanAIResponse
        (''{"name":"Hits [80s, 90s, ]","tracks":[{"title":"So What","artist":"Miles Davis"}]}''
         @ '' Enjoy! Reply {more} for extra songs.'') =
       Inr ''{"name":"Hits [80s, 90s]","tracks":[{"title":"So What","artist":"Miles Davis"}]} Enjoy! Reply {more}''
   \<and> parseAiPlaylistResponse
        (''{"name":"Hits [80s, 90s, ]","tracks":[{"title":"So What","artist":"Miles Davis"}]}''
         @ '' Enjoy! Reply {more} for extra songs.'') =
       Inr (JObject [(map of_char ''name'', jstr ''Hits [80s, 90s]''),
                     (map of_char ''tracks'',
                      JArray [JObject [(map of_char ''title'', jstr ''So What''),
                                       (map of_char ''artist'', jstr ''Miles Davis'')]])])\<close>
  by (intro conjI; code_simp)

subsection \<open>String literals as the quotes delimit them\<close>

lemma run_qmode:
  "run cs (Some (l, p)) = Some (l', p') \<Longrightarrow> qmode l' = foldl qstep (qmode l) cs"
proof (induction cs arbitrary: l p)
  case Nil
  then show ?case by (simp add: run_def)
next
  case (Cons c cs)
  show ?case
  proof (cases "step (l, p) c")
    case None
    then have "run (c # cs) (Some (l, p)) = None"
      by (simp add: run_def feed_def) (induction cs, simp_all add: feed_def)
    with Cons.prems show ?thesis by simp
  next
    case (Some s)
    obtain l1 p1 where s: "s = (l1, p1)" by (cases s)
    from Some s Cons.prems have "run cs (Some (l1, p1)) = Some (l', p')"
      by (simp add: run_def feed_def)
    then have "qmode l' = foldl qstep (qmode l1) cs" by (rule Cons.IH)
    moreover from Some s have "qmode l1 = qstep (qmode l) c" by (simp add: step_qmode)
    ultimately show ?thesis by simp
  qed
qed

lemma qstep_plain: "plain c \<Longrightarrow> qstep q c = settle q"
  by (cases q) (simp_all add: plain_def)

lemma settle_settle: "settle (settle q) = settle q"
  by (cases q) simp_all

lemma foldl_qstep_plain:
  "list_all plain cs \<Longrightarrow> foldl qstep (settle q) cs = settle q"
  by (induction cs) (simp_all add: qstep_plain settle_settle)

lemma isSpace_plain: "isSpace c \<Longrightarrow> plain c"
  by (auto simp: isSpace_def plain_def)

lemma jsonWs_isSpace: "jsonWs c \<Longrightarrow> isSpace c"
  by (auto simp: jsonWs_def isSpace_def)

lemma takeWhile_isSpace_plain: "list_all plain (takeWhile isSpace cs)"
  by (induction cs) (simp_all add: isSpace_plain)

lemma comma_spaces_closer_qstep:
  assumes "dropWhile isSpace cs = d # r" "d = CHR ''}'' \<or> d = CHR '']''"
  shows "foldl qstep q (CHR '','' # cs) = foldl qstep (qstep q d) r"
proof -
  have cs: "cs = takeWhile isSpace cs @ d # r"
    using assms(1) takeWhile_dropWhile_id [of isSpace cs] by simp
  have pc: "plain CHR '',''" and pd: "plain d"
    using assms(2) by (auto simp: plain_def)
  have "foldl qstep q (CHR '','' # takeWhile isSpace cs @ d # r) =
        foldl qstep (qstep (foldl qstep (settle q) (takeWhile isSpace cs)) d) r"
    by (simp add: qstep_plain [OF pc])
  also have "\<dots> = foldl qstep (qstep q d) r"
    by (simp add: foldl_qstep_plain [OF takeWhile_isSpace_plain] qstep_plain [OF pd] settle_settle)
  finally show ?thesis using cs by simp
qed

lemma foldl_qstep_strip:
  "foldl qstep q (stripTrailingCommas a) = foldl qstep q a"
proof (induction a arbitrary: q rule: stripTrailingCommas.induct)
  case 1
  then show ?case by simp
next
  case (2 c cs)
  show ?case
  proof (cases "c = CHR '',''")
    case False
    then have "stripTrailingCommas (c # cs) = c # stripTrailingCommas cs" by simp
    then show ?thesis using "2.IH"(4) [OF False] by simp
  next
    case True
    show ?thesis
    proof (cases "dropWhile isSpace cs")
      case Nil
      then have "stripTrailingCommas (c # cs) = c # stripTrailingCommas cs"
        by (simp add: Nil)
      then show ?thesis using "2.IH"(1) [OF True Nil] by simp
    next
      case (Cons d r)
      show ?thesis
      proof (cases "d = CHR ''}'' \<or> d = CHR '']''")
        case False
        then have "stripTrailingCommas (c # cs) = c # stripTrailingCommas cs"
          by (simp add: Cons)
        then show ?thesis using "2.IH"(3) [OF True Cons False] by simp
      next
        case closer: True
        then have "stripTrailingCommas (c # cs) = d # stripTrailingCommas r"
          using True by (simp add: Cons)
        then show ?thesis
          using "2.IH"(2) [OF True Cons closer] comma_spaces_closer_qstep [OF Cons closer, of q] True
          by simp
      qed
    qed
  qed
qed

lemma insideStringLiteral_strip:
  "insideStringLiteral (stripTrailingCommas a) = insideStringLiteral a"
  by (simp add: insideStringLiteral_def foldl_qstep_strip)

subsection \<open>White space before a closing bracket\<close>

lemma run_ws_Between:
  "list_all jsonWs ws \<Longrightarrow> run ws (Some (Between, p)) = Some (Between, p)"
  by (induction ws) (simp_all add: run_Nil run_Cons feed_def step_def)

lemma closer_punct: "d = CHR ''}'' \<or> d = CHR '']'' \<Longrightarrow> \<exists>t. punct d = Some t \<and> \<not> jsonWs d \<and> d \<noteq> CHR 0x22"
  by (auto simp: punct_def jsonWs_def)

lemma run_ws_closer:
  assumes "list_all jsonWs ws" "d = CHR ''}'' \<or> d = CHR '']''" "qmode l = Outside"
  shows "run (ws @ [d]) (Some (l, p)) = run [d] (Some (l, p))"
proof (cases ws)
  case Nil
  then show ?thesis by simp
next
  case (Cons w ws')
  with assms(1) have w: "jsonWs w" and ws': "list_all jsonWs ws'" by simp_all
  obtain t where t: "punct d = Some t" "\<not> jsonWs d" "d \<noteq> CHR 0x22"
    using closer_punct [OF assms(2)] by blast
  show ?thesis
  proof (cases l)
    case Between
    then show ?thesis
      using assms(1) by (simp add: run_append run_ws_Between)
  next
    case (InWord x)
    show ?thesis
    proof (cases "flushWord x p")
      case None
      then show ?thesis
        using w t unfolding Cons InWord
        by (simp add: run_Cons run_Nil run_append run_None feed_def step_def)
    next
      case (Some p')
      then show ?thesis
        using w t ws' unfolding Cons InWord
        by (simp add: run_Cons run_Nil run_append run_ws_Between feed_def step_def)
    qed
  next
    case (InStr acc)
    with assms(3) show ?thesis by simp
  next
    case (InEsc acc)
    with assms(3) show ?thesis by simp
  next
    case (InHex acc hs)
    with assms(3) show ?thesis by simp
  qed
qed

lemma run_outside:
  assumes "\<not> insideStringLiteral X"
  shows "run X (Some (Between, [], PValue)) = None
         \<or> (\<exists>l p. run X (Some (Between, [], PValue)) = Some (l, p) \<and> qmode l = Outside)"
proof (cases "run X (Some (Between, [], PValue))")
  case None
  then show ?thesis by simp
next
  case (Some s)
  obtain l p where s: "s = (l, p)" by (cases s)
  from Some s have "qmode l = foldl qstep (qmode Between) X" by (simp add: run_qmode)
  with assms have "qmode l = Outside" by (simp add: insideStringLiteral_def)
  with Some s show ?thesis by simp
qed

lemma JSON_parse_ws_closer:
  assumes "\<not> insideStringLiteral X" "list_all jsonWs ws" "d = CHR ''}'' \<or> d = CHR '']''"
  shows "JSON_parse (X @ ws @ d # E) = JSON_parse (X @ d # E)"
proof -
  let ?so = "run X (Some (Between, [], PValue))"
  have "run (ws @ [d]) ?so = run [d] ?so"
    using run_outside [OF assms(1)]
  proof
    assume "?so = None"
    then show ?thesis by (simp add: run_None)
  next
    assume "\<exists>l p. ?so = Some (l, p) \<and> qmode l = Outside"
    then obtain l p where "?so = Some (l, p)" "qmode l = Outside" by blast
    then show ?thesis using run_ws_closer [OF assms(2,3)] by simp
  qed
  then have "run (X @ (ws @ [d]) @ E) (Some (Between, [], PValue)) = run (X @ [d] @ E) (Some (Between, [], PValue))"
    by (simp only: run_append)
  then show ?thesis
    by (simp add: JSON_parse_def)
qed

lemma insideStringLiteral_append_ws:
  assumes "\<not> insideStringLiteral X" "list_all jsonWs ws"
  shows "\<not> insideStringLiteral (X @ ws)"
proof -
  have "list_all plain ws"
    using assms(2) by (induction ws) (auto simp: isSpace_plain jsonWs_isSpace)
  then have "foldl qstep (settle Outside) ws = settle Outside"
    by (rule foldl_qstep_plain)
  then show ?thesis
    using assms(1) by (simp add: insideStringLiteral_def)
qed

subsection \<open>The brace count over a prefix\<close>

lemma braceScan_append:
  "braceScan n (A @ R) = (case depthAfter n A of None \<Rightarrow> braceScan n A | Some n' \<Rightarrow> A @ braceScan n' R)"
  by (induction n A rule: depthAfter.induct) (simp_all split: option.splits)

lemma depthAfter_no_brace:
  "list_all jsonWs ws \<Longrightarrow> depthAfter n ws = Some n"
  by (induction ws) (auto simp: jsonWs_def)

lemma braceScan_no_brace:
  "list_all jsonWs ws \<Longrightarrow> braceScan n (ws @ R) = ws @ braceScan n R"
  by (simp add: braceScan_append depthAfter_no_brace)

lemma braceScan_Cons_hd: "\<exists>Z. braceScan n (d # E) = d # Z"
  by simp

lemma truncateAtBalance_ws_closer:
  assumes "list_all jsonWs ws"
  shows "truncateAtBalance (X @ ws @ d # E) = truncateAtBalance (X @ d # E)
         \<or> (\<exists>Z. truncateAtBalance (X @ ws @ d # E) = X @ ws @ d # Z
                \<and> truncateAtBalance (X @ d # E) = X @ d # Z)"
proof (cases "depthAfter 0 X")
  case None
  then show ?thesis by (simp add: truncateAtBalance_def braceScan_append)
next
  case (Some n)
  obtain Z where Z: "braceScan n (d # E) = d # Z"
    using braceScan_Cons_hd by blast
  have a: "braceScan 0 (X @ R) = X @ braceScan n R" for R
    using Some by (simp add: braceScan_append)
  have "truncateAtBalance (X @ ws @ d # E) = X @ ws @ d # Z"
    unfolding truncateAtBalance_def a braceScan_no_brace [OF assms] Z by simp
  moreover have "truncateAtBalance (X @ d # E) = X @ d # Z"
    unfolding truncateAtBalance_def a Z by simp
  ultimately show ?thesis by blast
qed

lemma second_parse_ws_closer:
  assumes "\<not> insideStringLiteral X" "list_all jsonWs ws" "d = CHR ''}'' \<or> d = CHR '']''"
  shows "JSON_parse (truncateAtBalance (X @ ws @ d # E)) = JSON_parse (truncateAtBalance (X @ d # E))"
  using truncateAtBalance_ws_closer [OF assms(2), of X d E]
proof
  assume "truncateAtBalance (X @ ws @ d # E) = truncateAtBalance (X @ d # E)"
  then show ?thesis by simp
next
  assume "\<exists>Z. truncateAtBalance (X @ ws @ d # E) = X @ ws @ d # Z
                \<and> truncateAtBalance (X @ d # E) = X @ d # Z"
  then obtain Z where "truncateAtBalance (X @ ws @ d # E) = X @ ws @ d # Z"
    "truncateAtBalance (X @ d # E) = X @ d # Z" by blast
  then show ?thesis
    using JSON_parse_ws_closer [OF assms, of Z] by simp
qed

subsection \<open>A fenced block that holds the object\<close>

lemma splitAtFirst_fence:
  "CHR 0x60 \<notin> set pre \<Longrightarrow> splitAtFirst fence (pre @ fence @ R) = Some (pre, R)"
  by (induction pre) (auto simp: fence_def)

lemma codeBlockMatch_block:
  assumes "CHR 0x60 \<notin> set pre" "lang = [] \<or> lang = ''json''" "list_all isSpace sp"
    and "body = CHR ''{'' # rest" "CHR 0x60 \<notin> set body"
  shows "codeBlockMatch (pre @ fence @ lang @ sp @ body @ fence @ post) = Some body"
proof -
  let ?R = "lang @ sp @ body @ fence @ post"
  have s1: "splitAtFirst fence (pre @ fence @ ?R) = Some (pre, ?R)"
    using assms(1) by (rule splitAtFirst_fence)
  have d: "dropWhile isSpace (sp @ body @ fence @ post) = body @ fence @ post"
    using assms(3) unfolding assms(4) by (induction sp) (simp_all add: isSpace_def)
  have d0: "lang = [] \<Longrightarrow> (if take 4 ?R = ''json'' then drop 4 ?R else ?R) = sp @ body @ fence @ post"
  proof -
    assume l: "lang = []"
    have "take 4 (sp @ body @ fence @ post) \<noteq> ''json''"
    proof (cases sp)
      case Nil
      then show ?thesis unfolding assms(4) by simp
    next
      case (Cons w ws)
      with assms(3) have "isSpace w" by simp
      then have "w \<noteq> CHR ''j''" by (auto simp: isSpace_def)
      then show ?thesis unfolding Cons by auto
    qed
    then show ?thesis using l by simp
  qed
  have d1: "lang = ''json'' \<Longrightarrow> (if take 4 ?R = ''json'' then drop 4 ?R else ?R) = sp @ body @ fence @ post"
    by simp
  have r: "(if take 4 ?R = ''json'' then drop 4 ?R else ?R) = sp @ body @ fence @ post"
    using assms(2) d0 d1 by blast
  have s2: "splitAtFirst fence (body @ fence @ post) = Some (body, post)"
    using assms(5) by (rule splitAtFirst_fence)
  show ?thesis
    unfolding codeBlockMatch_def s1 by (simp only: option.case prod.case Let_def r d s2)
qed

lemma dropWhile_subsumed:
  "(\<And>x. P x \<Longrightarrow> Q x) \<Longrightarrow> dropWhile Q (dropWhile P xs) = dropWhile Q xs"
  by (induction xs) auto

lemma upToLastBrace_rtrim:
  "upToLastBrace (rev (dropWhile isSpace (rev s))) = upToLastBrace s"
proof -
  have "dropWhile (\<lambda>c. c \<noteq> CHR ''}'') (dropWhile isSpace (rev s)) = dropWhile (\<lambda>c. c \<noteq> CHR ''}'') (rev s)"
    by (rule dropWhile_subsumed) (auto simp: isSpace_def)
  then show ?thesis by (simp add: upToLastBrace_def)
qed

lemma rtrim_hd:
  assumes "\<not> isSpace c"
  shows "\<exists>ys. rev (dropWhile isSpace (rev (c # rest))) = c # ys"
proof (cases "\<forall>x \<in> set rest. isSpace x")
  case True
  then have "rev (dropWhile isSpace (rev (c # rest))) = [c]"
    using assms by (simp add: dropWhile_append)
  then show ?thesis by simp
next
  case False
  then have "rev (dropWhile isSpace (rev (c # rest))) = c # rev (dropWhile isSpace (rev rest))"
    by (simp add: dropWhile_append)
  then show ?thesis by simp
qed

lemma jsonMatch_trim:
  assumes "body = CHR ''{'' # rest"
  shows "jsonMatch (trim body) = (if upToLastBrace body = [] then None else Some (upToLastBrace body))"
proof -
  have ns: "\<not> isSpace CHR ''{''" by (simp add: isSpace_def)
  have t: "trim body = rev (dropWhile isSpace (rev body))"
    unfolding assms using ns by (simp add: trim_def)
  obtain ys where ys: "rev (dropWhile isSpace (rev body)) = CHR ''{'' # ys"
    unfolding assms using rtrim_hd [OF ns] by blast
  have f: "fromFirstBrace (trim body) = trim body"
    unfolding t ys by (simp add: fromFirstBrace_def)
  have u: "upToLastBrace (trim body) = upToLastBrace body"
    unfolding t by (rule upToLastBrace_rtrim)
  show ?thesis
    by (simp add: jsonMatch_def f u)
qed

subsection \<open>The comma rewrite around the trailing comma\<close>

lemma strip_ws_prefix:
  "list_all jsonWs ws \<Longrightarrow> stripTrailingCommas (ws @ Y) = ws @ stripTrailingCommas Y"
proof (induction ws)
  case Nil
  then show ?case by simp
next
  case (Cons w ws)
  then have nc: "w \<noteq> CHR '',''" by (auto simp: jsonWs_def)
  from Cons.prems have "list_all jsonWs ws" by simp
  then have ih: "stripTrailingCommas (ws @ Y) = ws @ stripTrailingCommas Y" by (rule Cons.IH)
  show ?case unfolding append_Cons strip_noncomma [OF nc] ih by simp
qed

lemma strip_trailing_comma:
  assumes "list_all jsonWs ws" "d = CHR ''}'' \<or> d = CHR '']''"
  shows "stripTrailingCommas (CHR '','' # ws @ d # e) = d # stripTrailingCommas e"
proof -
  have "\<not> isSpace d" using assms(2) by (auto simp: isSpace_def)
  then have "dropWhile isSpace (ws @ d # e) = d # e"
    using assms(1) by (induction ws) (simp_all add: jsonWs_isSpace)
  then show ?thesis using assms(2) by (rule strip_comma_close)
qed

lemma strip_closer:
  "d = CHR ''}'' \<or> d = CHR '']'' \<Longrightarrow> stripTrailingCommas (d # e) = d # stripTrailingCommas e"
  by (rule strip_noncomma) auto

lemma cleaned_with_comma:
  assumes "a \<noteq> []" "\<not> isSpace (last a)" "last a \<noteq> CHR '',''"
    and "list_all jsonWs ws0" "list_all jsonWs ws1" "d = CHR ''}'' \<or> d = CHR '']''"
  shows "stripTrailingCommas (a @ ws0 @ [CHR '',''] @ ws1 @ [d] @ e) =
           (stripTrailingCommas a @ ws0) @ d # stripTrailingCommas e"
    and "stripTrailingCommas (a @ ws0 @ ws1 @ [d] @ e) =
           (stripTrailingCommas a @ ws0) @ ws1 @ d # stripTrailingCommas e"
proof -
  show "stripTrailingCommas (a @ ws0 @ [CHR '',''] @ ws1 @ [d] @ e) =
           (stripTrailingCommas a @ ws0) @ d # stripTrailingCommas e"
    unfolding stripTrailingCommas_append [OF assms(1-3)] strip_ws_prefix [OF assms(4)]
    using strip_trailing_comma [OF assms(5,6), of e] by simp
  show "stripTrailingCommas (a @ ws0 @ ws1 @ [d] @ e) =
           (stripTrailingCommas a @ ws0) @ ws1 @ d # stripTrailingCommas e"
    unfolding stripTrailingCommas_append [OF assms(1-3)] strip_ws_prefix [OF assms(4)]
      strip_ws_prefix [OF assms(5)]
    using strip_closer [OF assms(6), of e] by simp
qed

lemma parse_attempts_agree:
  assumes "cleanAIResponse T = Inr S" "cleanAIResponse T' = Inr S'"
    and "JSON_parse S = JSON_parse S'"
    and "JSON_parse (truncateAtBalance S) = JSON_parse (truncateAtBalance S')"
  shows "parseAiPlaylistResponse T = parseAiPlaylistResponse T'"
  unfolding parseAiPlaylistResponse_def assms(1) assms(2) sum.case assms(3) assms(4) ..

lemma upToLastBrace_no_brace: "CHR ''}'' \<notin> set y \<Longrightarrow> upToLastBrace (x @ y) = upToLastBrace x"
  using upToLastBrace_append [of x y] upToLastBrace_empty_iff [of y] by simp

lemma jsonWs_no_brace: "list_all jsonWs ws \<Longrightarrow> CHR ''}'' \<notin> set ws"
  by (induction ws) (auto simp: jsonWs_def)

text \<open>
  C5. Take a text with a fenced block: any text without a backquote, the fence, an
  optional \<^verbatim>\<open>json\<close>, white space, the block, the fence, any text. The block opens
  with the brace of the JSON object and has a trailing comma: behind a value (a character
  that is neither white space nor a comma, outside the string literals) and optional
  JSON white space stands a comma, followed by optional JSON white space and a closing
  brace or bracket. Then \<open>parseAiPlaylistResponse\<close> gives the same result, value or
  error, for the text and for the text without that comma.
\<close>

theorem trailing_comma_same_result:
  assumes pre: "CHR 0x60 \<notin> set pre"
    and lang: "lang = [] \<or> lang = ''json''"
    and sp: "list_all isSpace sp"
    and block: "CHR 0x60 \<notin> set (a @ ws0 @ ws1 @ [d] @ b)"
    and opens: "take 1 a = ''{''"
    and value_end: "\<not> isSpace (last a)" "last a \<noteq> CHR '',''"
    and outside: "\<not> insideStringLiteral a"
    and ws: "list_all jsonWs ws0" "list_all jsonWs ws1"
    and closer: "d = CHR ''}'' \<or> d = CHR '']''"
  shows "parseAiPlaylistResponse
           (pre @ fence @ lang @ sp @ (a @ ws0 @ [CHR '',''] @ ws1 @ [d] @ b) @ fence @ post) =
         parseAiPlaylistResponse
           (pre @ fence @ lang @ sp @ (a @ ws0 @ ws1 @ [d] @ b) @ fence @ post)"
proof -
  let ?body = "a @ ws0 @ [CHR '',''] @ ws1 @ [d] @ b"
  let ?body' = "a @ ws0 @ ws1 @ [d] @ b"
  let ?T = "pre @ fence @ lang @ sp @ ?body @ fence @ post"
  let ?T' = "pre @ fence @ lang @ sp @ ?body' @ fence @ post"
  from opens obtain rest where a: "a = CHR ''{'' # rest"
    by (cases a) auto
  then have ne: "a \<noteq> []" by simp
  have b1: "?body = CHR ''{'' # (rest @ ws0 @ [CHR '',''] @ ws1 @ [d] @ b)"
    and b2: "?body' = CHR ''{'' # (rest @ ws0 @ ws1 @ [d] @ b)"
    unfolding a by simp_all
  have block1: "CHR 0x60 \<notin> set ?body"
    using block by auto
  have m1: "codeBlockMatch ?T = Some ?body"
    using pre lang sp b1 block1 by (rule codeBlockMatch_block)
  have m2: "codeBlockMatch ?T' = Some ?body'"
    using pre lang sp b2 block by (rule codeBlockMatch_block)
  have j1: "jsonMatch (trim ?body) = (if upToLastBrace ?body = [] then None else Some (upToLastBrace ?body))"
    using b1 by (rule jsonMatch_trim)
  have j2: "jsonMatch (trim ?body') = (if upToLastBrace ?body' = [] then None else Some (upToLastBrace ?body'))"
    using b2 by (rule jsonMatch_trim)
  have c1: "cleanAIResponse ?T =
              (if upToLastBrace ?body = [] then Inl (ParseError NoJsonObjectFound)
               else Inr (stripTrailingCommas (upToLastBrace ?body)))"
    unfolding cleanAIResponse_def m1 by (simp only: option.case Let_def j1 if_distrib [of "case_option _ _"] option.case)
  have c2: "cleanAIResponse ?T' =
              (if upToLastBrace ?body' = [] then Inl (ParseError NoJsonObjectFound)
               else Inr (stripTrailingCommas (upToLastBrace ?body')))"
    unfolding cleanAIResponse_def m2 by (simp only: option.case Let_def j2 if_distrib [of "case_option _ _"] option.case)
  have nb: "CHR ''}'' \<notin> set (ws0 @ [CHR '',''] @ ws1)" "CHR ''}'' \<notin> set (ws0 @ ws1)"
    using ws jsonWs_no_brace by auto
  show ?thesis
  proof (cases "upToLastBrace (d # b) = []")
    case True
    have "upToLastBrace ?body = upToLastBrace ((a @ ws0 @ [CHR '',''] @ ws1) @ d # b)" by simp
    also have "\<dots> = upToLastBrace (a @ ws0 @ [CHR '',''] @ ws1)"
      using upToLastBrace_append [of "a @ ws0 @ [CHR '',''] @ ws1" "d # b"] True by simp
    also have "\<dots> = upToLastBrace a"
      using upToLastBrace_no_brace [OF nb(1), of a] by simp
    finally have u1: "upToLastBrace ?body = upToLastBrace a" .
    have "upToLastBrace ?body' = upToLastBrace ((a @ ws0 @ ws1) @ d # b)" by simp
    also have "\<dots> = upToLastBrace (a @ ws0 @ ws1)"
      using upToLastBrace_append [of "a @ ws0 @ ws1" "d # b"] True by simp
    also have "\<dots> = upToLastBrace a"
      using upToLastBrace_no_brace [OF nb(2), of a] by simp
    finally have u2: "upToLastBrace ?body' = upToLastBrace a" .
    have "cleanAIResponse ?T = cleanAIResponse ?T'"
      unfolding c1 c2 u1 u2 ..
    then show ?thesis
      by (simp only: parseAiPlaylistResponse_def)
  next
    case False
    then obtain e where e: "upToLastBrace (d # b) = d # e"
      unfolding upToLastBrace_Cons by (auto split: if_splits)
    have "upToLastBrace ?body = upToLastBrace ((a @ ws0 @ [CHR '',''] @ ws1) @ d # b)" by simp
    also have "\<dots> = (a @ ws0 @ [CHR '',''] @ ws1) @ d # e"
      using upToLastBrace_append [of "a @ ws0 @ [CHR '',''] @ ws1" "d # b"] e by simp
    finally have u1: "upToLastBrace ?body = a @ ws0 @ [CHR '',''] @ ws1 @ [d] @ e" by simp
    have "upToLastBrace ?body' = upToLastBrace ((a @ ws0 @ ws1) @ d # b)" by simp
    also have "\<dots> = (a @ ws0 @ ws1) @ d # e"
      using upToLastBrace_append [of "a @ ws0 @ ws1" "d # b"] e by simp
    finally have u2: "upToLastBrace ?body' = a @ ws0 @ ws1 @ [d] @ e" by simp
    let ?X = "stripTrailingCommas a @ ws0"
    let ?E = "stripTrailingCommas e"
    have s1: "cleanAIResponse ?T = Inr (?X @ d # ?E)"
      unfolding c1 u1 cleaned_with_comma(1) [OF ne value_end ws closer] using ne by simp
    have s2: "cleanAIResponse ?T' = Inr (?X @ ws1 @ d # ?E)"
      unfolding c2 u2 cleaned_with_comma(2) [OF ne value_end ws closer] using ne by simp
    have "\<not> insideStringLiteral (stripTrailingCommas a)"
      using outside by (simp add: insideStringLiteral_strip)
    then have out: "\<not> insideStringLiteral ?X"
      using ws(1) by (rule insideStringLiteral_append_ws)
    have p1: "JSON_parse (?X @ d # ?E) = JSON_parse (?X @ ws1 @ d # ?E)"
      using JSON_parse_ws_closer [OF out ws(2) closer, of ?E] by simp
    have p2: "JSON_parse (truncateAtBalance (?X @ d # ?E)) =
              JSON_parse (truncateAtBalance (?X @ ws1 @ d # ?E))"
      using second_parse_ws_closer [OF out ws(2) closer, of ?E] by simp
    show ?thesis
      using s1 s2 p1 p2 by (rule parse_attempts_agree)
  qed
qed

theorem trailing_comma_same_result_witness:
  \<open>parseAiPlaylistResponse
     ''Here you go: ```json\<newline>{"name":"X","tracks":[{"title":"Song","artist":"Artist"},\<newline>]}\<newline>``` Enjoy!'' =
   Inr (JObject [(map of_char ''name'', jstr ''X''),
                 (map of_char ''tracks'',
                  JArray [JObject [(map of_char ''title'', jstr ''Song''),
                                   (map of_char ''artist'', jstr ''Artist'')]])])\<close>
proof -
  let ?pre = "''Here you go: ''"
  let ?lang = "''json''"
  let ?sp = "''\<newline>''"
  let ?a = \<open>''{"name":"X","tracks":[{"title":"Song","artist":"Artist"}''\<close>
  let ?ws0 = "[] :: string"
  let ?ws1 = "''\<newline>''"
  let ?d = "CHR '']''"
  let ?b = "''}\<newline>''"
  let ?post = "'' Enjoy!''"
  have h1: "CHR 0x60 \<notin> set ?pre" by simp
  have h2: "?lang = [] \<or> ?lang = ''json''" by simp
  have h3: "list_all isSpace ?sp" by (simp add: isSpace_def)
  have h4: "CHR 0x60 \<notin> set (?a @ ?ws0 @ ?ws1 @ [?d] @ ?b)" by simp
  have h5: "take 1 ?a = ''{''" by simp
  have h6: "\<not> isSpace (last ?a)" by (simp add: isSpace_def)
  have h7: "last ?a \<noteq> CHR '',''" by simp
  have h8: "\<not> insideStringLiteral ?a" by (simp add: insideStringLiteral_def)
  have h9: "list_all jsonWs ?ws0" by simp
  have h10: "list_all jsonWs ?ws1" by (simp add: jsonWs_def)
  have h11: "?d = CHR ''}'' \<or> ?d = CHR '']''" by simp
  have without: \<open>parseAiPlaylistResponse
     ''Here you go: ```json\<newline>{"name":"X","tracks":[{"title":"Song","artist":"Artist"}\<newline>]}\<newline>``` Enjoy!'' =
   Inr (JObject [(map of_char ''name'', jstr ''X''),
                 (map of_char ''tracks'',
                  JArray [JObject [(map of_char ''title'', jstr ''Song''),
                                   (map of_char ''artist'', jstr ''Artist'')]])])\<close>
    by code_simp
  from trailing_comma_same_result [OF h1 h2 h3 h4 h5 h6 h7 h8 h9 h10 h11, of ?post]
  show ?thesis
    using without by (simp add: fence_def)
qed

section \<open>What the other variants do\<close>

lemma parseAiPlaylistResponse_validates:
  "parseAiPlaylistResponse data =
     (case parseAiPlaylistResponse_unvalidated data of
        Inl e \<Rightarrow> Inl e
      | Inr playlist \<Rightarrow> validatePlaylist playlist)"
  by (simp add: parseAiPlaylistResponse_def parseAiPlaylistResponse_unvalidated_def
           split: sum.splits option.splits)

lemma parseAiPlaylistResponse_unvalidated_example:
  \<open>parseAiPlaylistResponse_unvalidated ''{"name":"Empty","tracks":[]}'' =
     Inr (JObject [(map of_char ''name'', jstr ''Empty''), (map of_char ''tracks'', JArray [])])\<close>
  by code_simp

lemma resolveTracksOnSpotify_unchecked_example:
  "resolveTracksOnSpotify_unchecked (\<lambda>q. if q = ''track:A artist:B'' then Throws else Items [])
     [\<lparr>title = ''A'', artist = ''B''\<rparr>, \<lparr>title = ''C'', artist = ''D''\<rparr>] = [None, None]"
  by (simp add: resolveTracksOnSpotify_unchecked_def resolveSongStrictOnly_def strictQuery_def
        firstItem_def)

lemma resolveSongStrictOnly_example:
  "resolveSongStrictOnly
     (\<lambda>q. if q = ''Blue in Green Miles Davis''
           then Items [\<lparr>ref = 1, track_id = ''id1'', track_name = ''Blue in Green''\<rparr>]
           else Items [])
     \<lparr>title = ''Blue in Green'', artist = ''Miles Davis''\<rparr> = None"
  by (simp add: resolveSongStrictOnly_def strictQuery_def firstItem_def)

lemma resolveTracksOnSpotify_valid_example:
  "resolveTracksOnSpotify_valid
     (\<lambda>q. if q = ''track:A artist:B'' then Items [\<lparr>ref = 7, track_id = ''id7'', track_name = ''A''\<rparr>] else Items [])
     [\<lparr>title = ''C'', artist = ''D''\<rparr>, \<lparr>title = ''A'', artist = ''B''\<rparr>] =
       Inr [\<lparr>ref = 7, track_id = ''id7'', track_name = ''A''\<rparr>]"
  by (simp add: resolveTracksOnSpotify_valid_def resolveSongStrictOnly_def strictQuery_def
        firstItem_def)

lemma tunePlaylistRef_example:
  "tunePlaylistRef \<lparr>historyRefs = [10, 11, 12], currentRef = Some 11\<rparr> ''more jazz'' False (Inr 13)
     \<lparr>historyRefs = [10, 11, 12], currentRef = Some 11\<rparr> =
   \<lparr>historyRefs = [10, 11, 12, 13], currentRef = Some 13\<rparr>"
  by (simp add: tunePlaylistRef_def trim_def isSpace_def)

text \<open>
  The properties of \<open>TuneHistoryList\<close> in part_008 name \<open>setHistory\<close> as required.
  Were the list rendered with the setter of the history in addition, \<open>handleDelete\<close>
  would hand the index that the current playlist has in the new history to
  \<open>jumpToVersion\<close>, which looks it up in the history of its render, the one before the
  deletion: with [p10, p11] and p11 current, deleting version 0 would select the deleted
  p10.
\<close>

lemma handleDelete_with_setter_example:
  "handleDelete
     ((renderTuneHistoryList \<lparr>historyRefs = [10, 11], currentRef = Some 11\<rparr>)
        \<lparr>setHistory := Some (\<lambda>newHistory s. s\<lparr>historyRefs := newHistory\<rparr>)\<rparr>)
     [10, 11] 0 \<lparr>historyRefs = [10, 11], currentRef = Some 11\<rparr> =
   \<lparr>thrown = None, caller = \<lparr>historyRefs = [11], currentRef = Some 10\<rparr>, localHistory = [11]\<rparr>"
  by (simp add: handleDelete_def renderTuneHistoryList_def indexOf_def findIndex_def
        filterIndexed_def jumpToVersionRef_def Let_def)

end
